theory Spec2Isabelle
  imports Complex_Main "HOL-Library.Word"
begin

section \<open>Strings and the phrase matcher\<close>

text \<open>
  A JavaScript string is a sequence of UTF-16 code units. The literals of
  \<^verbatim>\<open>RadhaRadhaApp.tsx\<close> are written out as their code units; every Devanagari
  letter used is in the Basic Multilingual Plane (one unit), an emoji is a surrogate pair.
\<close>

type_synonym jsstring = "16 word list"

text \<open>
  \<^verbatim>\<open>String.prototype.toLowerCase\<close>, on the part of Unicode the matcher depends on: the
  ASCII capitals \<^verbatim>\<open>A\<close>..\<^verbatim>\<open>Z\<close> move to \<^verbatim>\<open>a\<close>..\<^verbatim>\<open>z\<close>, every other unit is kept.
  Devanagari has no case. The capitals outside ASCII, which the platform function also
  maps, are kept as they are here; none of them has a lower-case form that holds a unit
  of an accepted phrase.
\<close>

definition toLowerCase_unit :: "16 word \<Rightarrow> 16 word" where
  "toLowerCase_unit c = (if 0x41 \<le> c \<and> c \<le> 0x5A then c + 0x20 else c)"

definition toLowerCase :: "jsstring \<Rightarrow> jsstring" where
  "toLowerCase s = map toLowerCase_unit s"

text \<open>\<^verbatim>\<open>String.prototype.includes\<close>: the pattern occurs at some position.\<close>

fun startsWith :: "'a list \<Rightarrow> 'a list \<Rightarrow> bool" where
  "startsWith s [] = True"
| "startsWith [] (p # ps) = False"
| "startsWith (c # cs) (p # ps) = (c = p \<and> startsWith cs ps)"

fun includes_str :: "'a list \<Rightarrow> 'a list \<Rightarrow> bool" where
  "includes_str [] p = (p = [])"
| "includes_str (c # cs) p = (startsWith (c # cs) p \<or> includes_str cs p)"

definition radha_radha_latin :: jsstring where
  "radha_radha_latin =
     [0x0072, 0x0061, 0x0064, 0x0068, 0x0061, 0x0020, 0x0072, 0x0061, 0x0064, 0x0068,
      0x0061]"

definition radha_radha_devanagari :: jsstring where
  "radha_radha_devanagari =
     [0x0930, 0x093E, 0x0927, 0x093E, 0x0020, 0x0930, 0x093E, 0x0927, 0x093E]"

definition radha_latin :: jsstring where
  "radha_latin =
     [0x0072, 0x0061, 0x0064, 0x0068, 0x0061]"

definition radha_devanagari :: jsstring where
  "radha_devanagari =
     [0x0930, 0x093E, 0x0927, 0x093E]"

text \<open>
  The condition of \<^verbatim>\<open>LockScreen.onResult\<close> (lines 518-522) and, word for word, of
  \<^verbatim>\<open>handleFallbackSubmit\<close> (lines 567-571).
\<close>

definition matches :: "jsstring \<Rightarrow> bool" where
  "matches transcript =
     (let lowerTranscript = toLowerCase transcript
      in includes_str lowerTranscript radha_radha_latin \<or>
         includes_str lowerTranscript radha_radha_devanagari \<or>
         includes_str lowerTranscript radha_latin \<or>
         includes_str lowerTranscript radha_devanagari)"

text \<open>
  The accepted phrases, and what it is for a text to hold one of them "in any mixture of
  upper and lower case": some stretch of the text is the phrase with any of its letters
  replaced by their capitals.
\<close>

definition accepted_phrases :: "jsstring list" where
  "accepted_phrases =
     [radha_radha_latin, radha_radha_devanagari, radha_latin, radha_devanagari]"

definition toUpperCase_unit :: "16 word \<Rightarrow> 16 word" where
  "toUpperCase_unit c = (if 0x61 \<le> c \<and> c \<le> 0x7A then c - 0x20 else c)"

definition case_mixture :: "jsstring \<Rightarrow> jsstring \<Rightarrow> bool" where
  "case_mixture p v = list_all2 (\<lambda>a b. b = a \<or> b = toUpperCase_unit a) p v"

definition contains_accepted_phrase :: "jsstring \<Rightarrow> bool" where
  "contains_accepted_phrase t =
     (\<exists>p \<in> set accepted_phrases. \<exists>v. case_mixture p v \<and> includes_str t v)"

subsection \<open>The status lines of the lock screen\<close>

definition status_prompt :: jsstring where
  "status_prompt =
     [0x0930, 0x093E, 0x0927, 0x093E, 0x0020, 0x0930, 0x093E, 0x0928, 0x0940, 0x0020,
      0x0915, 0x093E, 0x0020, 0x0928, 0x093E, 0x092E, 0x0020, 0x092C, 0x094B, 0x0932,
      0x0915, 0x0930, 0x0020, 0x0924, 0x093E, 0x0932, 0x0947, 0x0020, 0x092A, 0x0930,
      0x0020, 0x091F, 0x0948, 0x092A, 0x0020, 0x0915, 0x0930, 0x094B, 0x002E, 0x002E,
      0x002E, 0x0020, 0x2728]"

definition status_heard_prefix :: jsstring where
  "status_heard_prefix =
     [0x090A, 0x092A, 0x094D, 0x0938, 0x0021, 0x0020, 0x092E, 0x0948, 0x0902, 0x0928,
      0x0947, 0x0020, 0x0938, 0x0941, 0x0928, 0x093E, 0x003A, 0x0020, 0x0022]"

definition status_heard_suffix :: jsstring where
  "status_heard_suffix =
     [0x0022, 0x002E, 0x002E, 0x002E, 0x0020, 0x092B, 0x093F, 0x0930, 0x0020, 0x0938,
      0x0947, 0x0020, 0x0915, 0x094B, 0x0936, 0x093F, 0x0936, 0x0020, 0x0915, 0x0930,
      0x094B, 0x0020, 0xD83D, 0xDE09]"

definition status_error :: jsstring where
  "status_error =
     [0x0915, 0x0941, 0x091B, 0x0020, 0x0917, 0x0921, 0x093C, 0x092C, 0x0921, 0x093C,
      0x0020, 0x0939, 0x0941, 0x0908, 0x002C, 0x0020, 0x092B, 0x093F, 0x0930, 0x0020,
      0x0938, 0x0947, 0x0020, 0x0915, 0x094B, 0x0936, 0x093F, 0x0936, 0x0020, 0x0915,
      0x0930, 0x0947, 0x0902, 0x0964]"

definition status_listening :: jsstring where
  "status_listening =
     [0x092E, 0x0948, 0x0902, 0x0020, 0x0927, 0x094D, 0x092F, 0x093E, 0x0928, 0x0020,
      0x0938, 0x0947, 0x0020, 0x0938, 0x0941, 0x0928, 0x0020, 0x0930, 0x0939, 0x093E,
      0x0020, 0x0939, 0x0942, 0x0901, 0x002E, 0x002E, 0x002E, 0x0020, 0xD83E, 0xDD2B]"

definition status_unsupported :: jsstring where
  "status_unsupported =
     [0x092E, 0x093E, 0x092B, 0x093C, 0x0020, 0x0915, 0x0930, 0x0928, 0x093E, 0x002C,
      0x0020, 0x0906, 0x092A, 0x0915, 0x093E, 0x0020, 0x092C, 0x094D, 0x0930, 0x093E,
      0x0909, 0x091C, 0x093C, 0x0930, 0x0020, 0x092F, 0x0939, 0x0020, 0x091C, 0x093E,
      0x0926, 0x0942, 0x0020, 0x0928, 0x0939, 0x0940, 0x0902, 0x0020, 0x091A, 0x0932,
      0x093E, 0x0020, 0x0938, 0x0915, 0x0924, 0x093E, 0x0964, 0x0020, 0x0928, 0x0940,
      0x091A, 0x0947, 0x0020, 0x0926, 0x093F, 0x090F, 0x0020, 0x092C, 0x0949, 0x0915,
      0x094D, 0x0938, 0x0020, 0x092E, 0x0947, 0x0902, 0x0020, 0x0930, 0x093E, 0x0927,
      0x093E, 0x0020, 0x0930, 0x093E, 0x0928, 0x0940, 0x0020, 0x0915, 0x093E, 0x0020,
      0x0928, 0x093E, 0x092E, 0x0020, 0x091F, 0x093E, 0x0907, 0x092A, 0x0020, 0x0915,
      0x0930, 0x0947, 0x0902, 0x0964]"

definition status_unlocked :: jsstring where
  "status_unlocked =
     [0x0924, 0x093E, 0x0932, 0x093E, 0x0020, 0x0916, 0x0941, 0x0932, 0x0020, 0x0917,
      0x092F, 0x093E, 0x0021, 0x0020, 0xD83D, 0xDD13, 0xD83C, 0xDF89]"

definition status_wrong_word :: jsstring where
  "status_wrong_word =
     [0x090A, 0x092A, 0x094D, 0x0938, 0x0021, 0x0020, 0x0917, 0x0932, 0x0924, 0x0020,
      0x0936, 0x092C, 0x094D, 0x0926, 0x002E, 0x002E, 0x002E, 0x0020, 0x092B, 0x093F,
      0x0930, 0x0020, 0x0938, 0x0947, 0x0020, 0x0915, 0x094B, 0x0936, 0x093F, 0x0936,
      0x0020, 0x0915, 0x0930, 0x094B, 0x0020, 0xD83D, 0xDE09]"

definition icon_locked :: jsstring where
  "icon_locked =
     [0xD83D, 0xDD12]"

definition icon_unlocked :: jsstring where
  "icon_unlocked =
     [0xD83D, 0xDD13]"

section \<open>The audio graph\<close>

text \<open>
  Numbers of the audio code are IEEE doubles in the source and exact reals here: the
  rounding of a product such as \<^verbatim>\<open>note.note * 1.5\<close> is outside the model. An
  oscillator node is recorded with the automation events of its gain node, in the
  order \<^verbatim>\<open>playNote\<close> issues them (lines 196-214). The wave form (always sine), the
  master gain and the delay line of lines 144-156 carry no behaviour of their own and
  are left out.
\<close>

datatype automation =
    SetValueAtTime real real
  | LinearRampToValueAtTime real real
  | ExponentialRampToValueAtTime real real

record oscillator =
  frequency :: real
  gain :: "automation list"
  startTime :: real
  stopTime :: real

definition playNote :: "real \<Rightarrow> real \<Rightarrow> real \<Rightarrow> real \<Rightarrow> oscillator" where
  "playNote freq start duration volume =
     (let baseVolume = 0.03 * volume
      in \<lparr>frequency = freq,
          gain = [SetValueAtTime 0 start,
                  LinearRampToValueAtTime baseVolume (start + 0.2),
                  ExponentialRampToValueAtTime (baseVolume * 0.5) (start + duration - 0.2),
                  ExponentialRampToValueAtTime 0.001 (start + duration)],
          startTime = start,
          stopTime = start + duration\<rparr>)"

text \<open>The melody of lines 216-227, as (note, duration) pairs.\<close>

definition melody :: "(real \<times> real) list" where
  "melody =
     [(261.63, 1.0), (293.66, 1.0), (329.63, 1.2), (392.00, 1.5), (349.23, 1.0),
      (329.63, 1.8), (440.00, 1.2), (392.00, 1.5), (349.23, 1.0), (329.63, 2.0)]"

text \<open>
  One pass of \<^verbatim>\<open>melody.forEach\<close> (lines 232-244): the nodes it creates, in order, and
  the value of the closure variable \<^verbatim>\<open>currentTime\<close> after it.
\<close>

fun playMelody_pass :: "nat \<Rightarrow> (real \<times> real) list \<Rightarrow> real \<Rightarrow> oscillator list \<times> real" where
  "playMelody_pass index [] currentTime = ([], currentTime)"
| "playMelody_pass index ((note, duration) # rest) currentTime =
     (let main = [playNote note currentTime duration 1.0];
          harmony = (if index mod 3 = 0
                     then [playNote (note * 1.5) currentTime duration 0.3] else []);
          octave = (if index mod 4 = 0
                    then [playNote (note * 2) (currentTime + 0.1) (duration * 0.8) 0.2]
                    else []);
          more = playMelody_pass (index + 1) rest (currentTime + duration)
      in (main @ harmony @ octave @ fst more, snd more))"

text \<open>
  The delay of the re-arm timer (line 248): the sum of the durations, in milliseconds.
\<close>

definition rearm_delay :: nat where
  "rearm_delay = nat \<lfloor>sum_list (map snd melody) * 1000\<rfloor>"

datatype ctx_state = ctx_suspended | ctx_running | ctx_closed

text \<open>
  An \<^verbatim>\<open>AudioContext\<close>: its state, its clock and the nodes created on it. The clock
  runs only while the context is running: \<open>elapsedBefore\<close> is the running time (in
  milliseconds) before the last resumption, at \<open>resumedAt\<close> on the timer clock.
\<close>

record AudioContext =
  ctx_state :: ctx_state
  resumedAt :: nat
  elapsedBefore :: nat
  oscillators :: "oscillator list"

definition currentTime :: "AudioContext \<Rightarrow> nat \<Rightarrow> real" where
  "currentTime ctx t =
     real (elapsedBefore ctx + (if ctx_state ctx = ctx_running then t - resumedAt ctx else 0))
       / 1000"

section \<open>Timers, components and the application state\<close>

datatype AppStage = lock | letter | proposal

text \<open>
  The closures handed to \<^verbatim>\<open>setTimeout\<close> and \<^verbatim>\<open>setInterval\<close>. The re-arm closure of
  \<^verbatim>\<open>playMelody\<close> (lines 246-248) carries what it captured: the \<^verbatim>\<open>isPlaying\<close> of the
  render that called \<^verbatim>\<open>startMusic\<close>, the audio context of its component instance, and the
  \<^verbatim>\<open>currentTime\<close> variable of that call.
\<close>

datatype callback =
    ResetStatus
  | CallOnUnlock
  | StartMusicTimer
  | RevealTick
  | RearmMelody bool nat real
  | ShowHintTimer
  | ShowButtonsTimer
  | RelocateTimer

record timer =
  tid :: nat
  due :: nat
  interval :: "nat option"
  cb :: callback

record LockScreen =
  showFallback :: bool
  fallbackValue :: jsstring
  status :: jsstring
  lockIcon :: jsstring
  isListening :: bool
  isSupported :: bool

text \<open>
  \<^verbatim>\<open>BackgroundMusic\<close>: \<open>audioContextRef\<close> is the index of its context in the store of
  contexts. No line of the source assigns \<^verbatim>\<open>oscillatorRef.current\<close>.
\<close>

record BackgroundMusic =
  audioContextRef :: "nat option"
  oscillatorRef :: "oscillator option"
  isSupported_music :: bool

record LoveLetter =
  visibleParagraphs :: nat
  isPlaying :: bool
  musicTimer :: nat
  revealTimer :: nat
  music :: BackgroundMusic

record ProposalScreen =
  showHint :: bool
  showProposal :: bool
  showButtons :: bool
  celebrationMode :: bool
  buttonPosition :: "real \<times> real"
  timer1 :: nat

text \<open>
  What the browser decides: whether speech recognition and Web Audio exist, whether a
  new audio context starts suspended, whether \<^verbatim>\<open>resume()\<close> succeeds, and the values
  \<^verbatim>\<open>Math.random()\<close> returns, in the order of the calls.
\<close>

record platform =
  speechAvailable :: bool
  audioAvailable :: bool
  audioStartsSuspended :: bool
  resumeSucceeds :: bool
  randomSeq :: "nat \<Rightarrow> real"

text \<open>The capture session of the speech recogniser.\<close>

datatype capture = Idle | Requested | Capturing

record app =
  browser :: platform
  now :: nat
  nextTimer :: nat
  timers :: "timer list"
  randomCalls :: nat
  audio :: "AudioContext list"
  recognition :: capture
  currentStage :: AppStage
  lockScreen :: "LockScreen option"
  loveLetter :: "LoveLetter option"
  proposalScreen :: "ProposalScreen option"

subsection \<open>Timers\<close>

definition setTimeout_at :: "nat \<Rightarrow> callback \<Rightarrow> app \<Rightarrow> app" where
  "setTimeout_at delay c s =
     s\<lparr>timers := timers s @ [\<lparr>tid = nextTimer s, due = now s + delay, interval = None, cb = c\<rparr>],
       nextTimer := nextTimer s + 1\<rparr>"

definition setInterval_at :: "nat \<Rightarrow> callback \<Rightarrow> app \<Rightarrow> app" where
  "setInterval_at delay c s =
     s\<lparr>timers := timers s @
         [\<lparr>tid = nextTimer s, due = now s + delay, interval = Some delay, cb = c\<rparr>],
       nextTimer := nextTimer s + 1\<rparr>"

definition clearTimer :: "nat \<Rightarrow> app \<Rightarrow> app" where
  "clearTimer h s = s\<lparr>timers := filter (\<lambda>tm. tid tm \<noteq> h) (timers s)\<rparr>"

definition Math_random :: "app \<Rightarrow> real \<times> app" where
  "Math_random s = (randomSeq (browser s) (randomCalls s), s\<lparr>randomCalls := randomCalls s + 1\<rparr>)"

subsection \<open>State setters\<close>

text \<open>A setter of a component that is not mounted changes nothing.\<close>

definition updLock :: "(LockScreen \<Rightarrow> LockScreen) \<Rightarrow> app \<Rightarrow> app" where
  "updLock f s = s\<lparr>lockScreen := map_option f (lockScreen s)\<rparr>"

definition updLetter :: "(LoveLetter \<Rightarrow> LoveLetter) \<Rightarrow> app \<Rightarrow> app" where
  "updLetter f s = s\<lparr>loveLetter := map_option f (loveLetter s)\<rparr>"

definition updProposal :: "(ProposalScreen \<Rightarrow> ProposalScreen) \<Rightarrow> app \<Rightarrow> app" where
  "updProposal f s = s\<lparr>proposalScreen := map_option f (proposalScreen s)\<rparr>"

definition setStatus :: "jsstring \<Rightarrow> app \<Rightarrow> app" where
  "setStatus x = updLock (\<lambda>l. l\<lparr>status := x\<rparr>)"

definition setLockIcon :: "jsstring \<Rightarrow> app \<Rightarrow> app" where
  "setLockIcon x = updLock (\<lambda>l. l\<lparr>lockIcon := x\<rparr>)"

definition setIsListening :: "bool \<Rightarrow> app \<Rightarrow> app" where
  "setIsListening b = updLock (\<lambda>l. l\<lparr>isListening := b\<rparr>)"

definition setFallbackValue :: "jsstring \<Rightarrow> app \<Rightarrow> app" where
  "setFallbackValue x = updLock (\<lambda>l. l\<lparr>fallbackValue := x\<rparr>)"

subsection \<open>BackgroundMusic\<close>

text \<open>
  \<^verbatim>\<open>playMelody\<close> (lines 231-249), with the closure's captures as arguments: the nodes of
  one pass are created on the captured context and the re-arm timer is set. A context
  that has been closed still takes new nodes; they never sound.
\<close>

definition playMelody :: "bool \<Rightarrow> nat \<Rightarrow> real \<Rightarrow> app \<Rightarrow> app" where
  "playMelody captured_isPlaying h t s =
     (let pass = playMelody_pass 0 melody t;
          s1 = (if h < length (audio s)
                then s\<lparr>audio := (audio s)
                       [h := (audio s ! h)\<lparr>oscillators := oscillators (audio s ! h) @ fst pass\<rparr>]\<rparr>
                else s)
      in setTimeout_at rearm_delay (RearmMelody captured_isPlaying h (snd pass)) s1)"

text \<open>
  \<^verbatim>\<open>startMusic\<close> (lines 184-252), called by the effect of the render whose
  \<^verbatim>\<open>isPlaying\<close> is the argument. A suspended context is resumed first; when that fails
  nothing is played.
\<close>

definition startMusic :: "bool \<Rightarrow> app \<Rightarrow> app" where
  "startMusic captured_isPlaying s =
     (case loveLetter s of
        None \<Rightarrow> s
      | Some l \<Rightarrow>
          (case audioContextRef (music l) of
             None \<Rightarrow> s
           | Some h \<Rightarrow>
               if h < length (audio s) then
                 (if ctx_state (audio s ! h) = ctx_suspended then
                    (if resumeSucceeds (browser s)
                     then playMelody captured_isPlaying h (currentTime (audio s ! h) (now s))
                            (s\<lparr>audio := (audio s)
                                 [h := (audio s ! h)\<lparr>ctx_state := ctx_running, resumedAt := now s\<rparr>]\<rparr>)
                     else s)
                  else playMelody captured_isPlaying h (currentTime (audio s ! h) (now s)) s)
               else s))"

text \<open>\<^verbatim>\<open>stopMusic\<close> (lines 254-259).\<close>

definition stopMusic :: "app \<Rightarrow> app" where
  "stopMusic s =
     updLetter (\<lambda>l. case oscillatorRef (music l) of
                       None \<Rightarrow> l
                     | Some osc \<Rightarrow> l\<lparr>music := (music l)\<lparr>oscillatorRef := None\<rparr>\<rparr>) s"

text \<open>
  The effect on \<^verbatim>\<open>[isPlaying, isSupported]\<close> (lines 170-182) and its cleanup. The guard
  of line 171 has the same value at every run of one instance, so the cleanup exists
  exactly when the guard lets the effect through.
\<close>

definition music_ready :: "app \<Rightarrow> bool" where
  "music_ready s =
     (case loveLetter s of
        None \<Rightarrow> False
      | Some l \<Rightarrow> isSupported_music (music l) \<and> audioContextRef (music l) \<noteq> None)"

definition isPlaying_effect :: "bool \<Rightarrow> app \<Rightarrow> app" where
  "isPlaying_effect p s =
     (if \<not> music_ready s then s else if p then startMusic p s else stopMusic s)"

definition isPlaying_cleanup :: "app \<Rightarrow> app" where
  "isPlaying_cleanup s = (if music_ready s then stopMusic s else s)"

definition setIsPlaying :: "bool \<Rightarrow> app \<Rightarrow> app" where
  "setIsPlaying p s =
     (case loveLetter s of
        None \<Rightarrow> s
      | Some l \<Rightarrow>
          if isPlaying l = p then s
          else isPlaying_effect p (isPlaying_cleanup (updLetter (\<lambda>l. l\<lparr>isPlaying := p\<rparr>) s)))"

text \<open>\<^verbatim>\<open>handleToggle\<close> (lines 265-274) with \<^verbatim>\<open>toggleMusic\<close> (lines 711-713).\<close>

definition handleToggle :: "app \<Rightarrow> app" where
  "handleToggle s =
     (case loveLetter s of
        None \<Rightarrow> s
      | Some l \<Rightarrow>
          let s1 = (case audioContextRef (music l) of
                      None \<Rightarrow> s
                    | Some h \<Rightarrow>
                        if \<not> isPlaying l \<and> h < length (audio s)
                           \<and> ctx_state (audio s ! h) = ctx_suspended \<and> resumeSucceeds (browser s)
                        then s\<lparr>audio := (audio s)
                               [h := (audio s ! h)\<lparr>ctx_state := ctx_running, resumedAt := now s\<rparr>]\<rparr>
                        else s)
          in setIsPlaying (\<not> isPlaying l) s1)"

text \<open>
  Mounting (lines 134-168, then the first run of the effect of lines 170-182 with
  \<^verbatim>\<open>isPlaying = false\<close>) and unmounting (the two cleanups).
\<close>

definition BackgroundMusic_mount :: "app \<Rightarrow> BackgroundMusic \<times> app" where
  "BackgroundMusic_mount s =
     (if audioAvailable (browser s)
      then (\<lparr>audioContextRef = Some (length (audio s)), oscillatorRef = None,
             isSupported_music = True\<rparr>,
            s\<lparr>audio := audio s @
                [\<lparr>ctx_state = (if audioStartsSuspended (browser s)
                                then ctx_suspended else ctx_running),
                  resumedAt = now s, elapsedBefore = 0, oscillators = []\<rparr>]\<rparr>)
      else (\<lparr>audioContextRef = None, oscillatorRef = None, isSupported_music = False\<rparr>, s))"

definition close_context :: "nat \<Rightarrow> app \<Rightarrow> app" where
  "close_context h s =
     (if h < length (audio s)
      then s\<lparr>audio := (audio s)
             [h := (audio s ! h)
                \<lparr>ctx_state := ctx_closed,
                 elapsedBefore := elapsedBefore (audio s ! h) +
                   (if ctx_state (audio s ! h) = ctx_running
                    then now s - resumedAt (audio s ! h) else 0)\<rparr>]\<rparr>
      else s)"

definition BackgroundMusic_unmount :: "app \<Rightarrow> app" where
  "BackgroundMusic_unmount s =
     (case loveLetter s of
        None \<Rightarrow> s
      | Some l \<Rightarrow>
          let s1 = isPlaying_cleanup s
          in (case audioContextRef (music l) of
                None \<Rightarrow> s1
              | Some h \<Rightarrow> close_context h s1))"

subsection \<open>LoveLetter\<close>

text \<open>
  The paragraphs of lines 671-709, by their \<^verbatim>\<open>isStrong\<close> flag; only their number
  enters the behaviour.
\<close>

definition letterParagraphs :: "bool list" where
  "letterParagraphs = [True, False, False, False, False, False, False, False, False, False]"

text \<open>
  Mounting: the child's effects run first, then the effect of lines 650-669 sets the
  music timer and the reveal interval. Unmounting runs the cleanup of lines 665-668 and
  the child's cleanups.
\<close>

definition LoveLetter_mount :: "app \<Rightarrow> app" where
  "LoveLetter_mount s =
     (let (bm, s1) = BackgroundMusic_mount s;
          s2 = s1\<lparr>loveLetter := Some \<lparr>visibleParagraphs = 0, isPlaying = False,
                                      musicTimer = nextTimer s1, revealTimer = nextTimer s1 + 1,
                                      music = bm\<rparr>\<rparr>;
          s3 = isPlaying_effect False s2
      in setInterval_at 1200 RevealTick (setTimeout_at 500 StartMusicTimer s3))"

definition LoveLetter_unmount :: "app \<Rightarrow> app" where
  "LoveLetter_unmount s =
     (case loveLetter s of
        None \<Rightarrow> s
      | Some l \<Rightarrow>
          (BackgroundMusic_unmount (clearTimer (musicTimer l) (clearTimer (revealTimer l) s)))
            \<lparr>loveLetter := None\<rparr>)"

text \<open>The updater of lines 656-662, run by the interval whose handle is \<open>h\<close>.\<close>

definition revealTick :: "nat \<Rightarrow> app \<Rightarrow> app" where
  "revealTick h s =
     (case loveLetter s of
        None \<Rightarrow> s
      | Some l \<Rightarrow>
          if visibleParagraphs l < length letterParagraphs
          then updLetter (\<lambda>l. l\<lparr>visibleParagraphs := visibleParagraphs l + 1\<rparr>) s
          else clearTimer h s)"

subsection \<open>ProposalScreen\<close>

text \<open>
  The particles that \<^verbatim>\<open>handleYes\<close> adds to the page (lines 803-819), like the particle
  system and the star canvas, only draw; they are left out, and so are their calls of
  \<^verbatim>\<open>Math.random\<close>.
\<close>

definition ProposalScreen_mount :: "app \<Rightarrow> app" where
  "ProposalScreen_mount s =
     setTimeout_at 1000 ShowHintTimer
       (s\<lparr>proposalScreen := Some \<lparr>showHint = False, showProposal = False, showButtons = False,
                                   celebrationMode = False, buttonPosition = (50, 80),
                                   timer1 = nextTimer s\<rparr>\<rparr>)"

definition ProposalScreen_unmount :: "app \<Rightarrow> app" where
  "ProposalScreen_unmount s =
     (case proposalScreen s of
        None \<Rightarrow> s
      | Some p \<Rightarrow> (clearTimer (timer1 p) s)\<lparr>proposalScreen := None\<rparr>)"

definition ProposalScreen_handleRevealProposal :: "app \<Rightarrow> app" where
  "ProposalScreen_handleRevealProposal s =
     setTimeout_at 2000 ShowButtonsTimer
       (updProposal (\<lambda>p. p\<lparr>showHint := False, showProposal := True\<rparr>) s)"

definition handleYes :: "app \<Rightarrow> app" where
  "handleYes s = updProposal (\<lambda>p. p\<lparr>celebrationMode := True, showButtons := False\<rparr>) s"

text \<open>\<^verbatim>\<open>setButtonPosition\<close> with two fresh random numbers (lines 823-826, 829-832).\<close>

definition relocate :: "app \<Rightarrow> app" where
  "relocate s =
     (let (rx, s1) = Math_random s;
          (ry, s2) = Math_random s1
      in updProposal (\<lambda>p. p\<lparr>buttonPosition := (rx * 80 + 10, ry * 80 + 10)\<rparr>) s2)"

definition handleNo :: "app \<Rightarrow> app" where
  "handleNo s = setTimeout_at 1000 RelocateTimer (relocate s)"

subsection \<open>CombinedApp\<close>

text \<open>
  \<^verbatim>\<open>setCurrentStage\<close>: a new value unmounts the component of the old stage and mounts
  that of the new one (lines 935-937); the same value changes nothing. The lock screen
  registers no cleanup (the effects of lines 16-39 and 545-550 return none).
\<close>

definition unmount_stage :: "AppStage \<Rightarrow> app \<Rightarrow> app" where
  "unmount_stage st s =
     (case st of
        lock \<Rightarrow> s\<lparr>lockScreen := None\<rparr>
      | letter \<Rightarrow> LoveLetter_unmount s
      | proposal \<Rightarrow> ProposalScreen_unmount s)"

text \<open>
  Mounting the lock screen: the first render has \<^verbatim>\<open>isSupported = false\<close>; the effect of
  the hook then records the capability, and the effect of lines 545-550, which still
  sees \<^verbatim>\<open>false\<close>, writes the fallback status and shows the text box.
\<close>

definition LockScreen_mount :: "app \<Rightarrow> app" where
  "LockScreen_mount s =
     (let first_render = \<lparr>showFallback = False, fallbackValue = [], status = status_prompt,
                          lockIcon = icon_locked, isListening = False, isSupported = False\<rparr>;
          hook_effect = first_render\<lparr>isSupported := speechAvailable (browser s)\<rparr>;
          fallback_effect = (if \<not> isSupported first_render
                             then hook_effect\<lparr>status := status_unsupported, showFallback := True\<rparr>
                             else hook_effect)
      in s\<lparr>lockScreen := Some fallback_effect\<rparr>)"

definition mount_stage :: "AppStage \<Rightarrow> app \<Rightarrow> app" where
  "mount_stage st s =
     (case st of
        lock \<Rightarrow> LockScreen_mount s
      | letter \<Rightarrow> LoveLetter_mount s
      | proposal \<Rightarrow> ProposalScreen_mount s)"

definition setCurrentStage :: "AppStage \<Rightarrow> app \<Rightarrow> app" where
  "setCurrentStage st s =
     (if currentStage s = st then s
      else mount_stage st ((unmount_stage (currentStage s) s)\<lparr>currentStage := st\<rparr>))"

definition CombinedApp_handleUnlock :: "app \<Rightarrow> app" where
  "CombinedApp_handleUnlock s = setCurrentStage letter s"

definition CombinedApp_handleRevealProposal :: "app \<Rightarrow> app" where
  "CombinedApp_handleRevealProposal s = setCurrentStage proposal s"

subsection \<open>LockScreen\<close>

definition LockScreen_handleUnlock :: "app \<Rightarrow> app" where
  "LockScreen_handleUnlock s =
     setTimeout_at 1500 CallOnUnlock (setLockIcon icon_unlocked (setStatus status_unlocked s))"

definition onResult :: "jsstring \<Rightarrow> app \<Rightarrow> app" where
  "onResult transcript s =
     setIsListening False
       (if matches transcript then LockScreen_handleUnlock s
        else setTimeout_at 3000 ResetStatus
               (setStatus (status_heard_prefix @ transcript @ status_heard_suffix) s))"

definition onError :: "app \<Rightarrow> app" where
  "onError s = setIsListening False (setTimeout_at 2000 ResetStatus (setStatus status_error s))"

definition onStart :: "app \<Rightarrow> app" where
  "onStart s = setIsListening True (setStatus status_listening s)"

text \<open>
  \<^verbatim>\<open>recognition.start()\<close>: a capture session begins when none is under way; a start
  while one is under way begins no second one.
\<close>

definition startListening :: "app \<Rightarrow> app" where
  "startListening s = (if recognition s = Idle then s\<lparr>recognition := Requested\<rparr> else s)"

definition handleLockClick :: "app \<Rightarrow> app" where
  "handleLockClick s =
     (case lockScreen s of
        None \<Rightarrow> s
      | Some l \<Rightarrow> if isSupported l \<and> \<not> isListening l then startListening s else s)"

definition handleFallbackSubmit :: "app \<Rightarrow> app" where
  "handleFallbackSubmit s =
     (case lockScreen s of
        None \<Rightarrow> s
      | Some l \<Rightarrow>
          if matches (fallbackValue l) then LockScreen_handleUnlock s
          else setTimeout_at 2000 ResetStatus (setStatus status_wrong_word s))"

section \<open>The clock and the events\<close>

definition run_callback :: "timer \<Rightarrow> app \<Rightarrow> app" where
  "run_callback tm s =
     (case cb tm of
        ResetStatus \<Rightarrow> setStatus status_prompt s
      | CallOnUnlock \<Rightarrow> CombinedApp_handleUnlock s
      | StartMusicTimer \<Rightarrow> setIsPlaying True s
      | RevealTick \<Rightarrow> revealTick (tid tm) s
      | RearmMelody p h t \<Rightarrow> (if p then playMelody p h t s else s)
      | ShowHintTimer \<Rightarrow> updProposal (\<lambda>p. p\<lparr>showHint := True\<rparr>) s
      | ShowButtonsTimer \<Rightarrow> updProposal (\<lambda>p. p\<lparr>showButtons := True\<rparr>) s
      | RelocateTimer \<Rightarrow> relocate s)"

text \<open>
  A due timer that is still pending fires: a timeout leaves the list, an interval is
  set one period later, and the callback runs.
\<close>

definition fire :: "timer \<Rightarrow> app \<Rightarrow> app" where
  "fire tm s =
     (if tm \<in> set (timers s)
      then run_callback tm
             (s\<lparr>timers := (case interval tm of
                              None \<Rightarrow> remove1 tm (timers s)
                            | Some p \<Rightarrow> map (\<lambda>x. if x = tm then x\<lparr>due := due x + p\<rparr> else x)
                                         (timers s))\<rparr>)
      else s)"

text \<open>
  One millisecond passes: the timers due at the new time fire, in the order in which
  they were set.
\<close>

definition tick :: "app \<Rightarrow> app" where
  "tick s =
     foldl (\<lambda>s' tm. fire tm s') (s\<lparr>now := now s + 1\<rparr>)
       (filter (\<lambda>tm. due tm \<le> now s + 1) (timers s))"

fun elapse :: "nat \<Rightarrow> app \<Rightarrow> app" where
  "elapse 0 s = s"
| "elapse (Suc n) s = tick (elapse n s)"

text \<open>
  What reaches the application: the passing of time, the taps and clicks on the controls
  that are on the page, text typed into the fallback box, and the three events of the
  speech recogniser. A control that is not rendered cannot be clicked. The recogniser's
  events call the handlers it was given whether or not the lock screen is still mounted.
\<close>

datatype event =
    Tick
  | LockClick
  | SpeechStart
  | SpeechResult jsstring
  | SpeechError
  | FallbackChange jsstring
  | FallbackSubmit
  | ToggleMusic
  | ContinueClick
  | RevealClick
  | YesClick
  | NoClick

definition step :: "event \<Rightarrow> app \<Rightarrow> app" where
  "step e s =
     (case e of
        Tick \<Rightarrow> tick s
      | LockClick \<Rightarrow> handleLockClick s
      | SpeechStart \<Rightarrow>
          (if recognition s = Requested then onStart (s\<lparr>recognition := Capturing\<rparr>) else s)
      | SpeechResult transcript \<Rightarrow>
          (if recognition s = Capturing then onResult transcript (s\<lparr>recognition := Idle\<rparr>)
           else s)
      | SpeechError \<Rightarrow>
          (if recognition s \<noteq> Idle then onError (s\<lparr>recognition := Idle\<rparr>) else s)
      | FallbackChange x \<Rightarrow>
          (case lockScreen s of
             None \<Rightarrow> s
           | Some l \<Rightarrow> if showFallback l then setFallbackValue x s else s)
      | FallbackSubmit \<Rightarrow>
          (case lockScreen s of
             None \<Rightarrow> s
           | Some l \<Rightarrow> if showFallback l then handleFallbackSubmit s else s)
      | ToggleMusic \<Rightarrow>
          (case loveLetter s of
             None \<Rightarrow> s
           | Some l \<Rightarrow> if isSupported_music (music l) then handleToggle s else s)
      | ContinueClick \<Rightarrow>
          (case loveLetter s of
             None \<Rightarrow> s
           | Some l \<Rightarrow>
               if visibleParagraphs l \<ge> length letterParagraphs
               then CombinedApp_handleRevealProposal s else s)
      | RevealClick \<Rightarrow>
          (case proposalScreen s of
             None \<Rightarrow> s
           | Some p \<Rightarrow>
               if showHint p \<and> \<not> showProposal p then ProposalScreen_handleRevealProposal s
               else s)
      | YesClick \<Rightarrow>
          (case proposalScreen s of
             None \<Rightarrow> s
           | Some p \<Rightarrow> if showButtons p \<and> \<not> celebrationMode p then handleYes s else s)
      | NoClick \<Rightarrow>
          (case proposalScreen s of
             None \<Rightarrow> s
           | Some p \<Rightarrow> if showButtons p \<and> \<not> celebrationMode p then handleNo s else s))"

fun run :: "event list \<Rightarrow> app \<Rightarrow> app" where
  "run [] s = s"
| "run (e # es) s = run es (step e s)"

text \<open>The page as it loads: the lock screen is mounted, nothing is pending.\<close>

definition initial :: "platform \<Rightarrow> app" where
  "initial b =
     LockScreen_mount
       \<lparr>browser = b, now = 0, nextTimer = 0, timers = [], randomCalls = 0, audio = [],
        recognition = Idle, currentStage = lock, lockScreen = None, loveLetter = None,
        proposalScreen = None\<rparr>"

section \<open>The melody as the specification words it\<close>

text \<open>
  A note of frequency \<open>f\<close> that starts at \<open>t\<close>, lasts \<open>d\<close> and peaks at volume \<open>v\<close>:
  the gain rises linearly from 0 to \<open>v\<close> in the first 0.2, decays exponentially to half
  of \<open>v\<close> until 0.2 before the end, and decays exponentially to 0.001 at the end.
\<close>

definition enveloped :: "real \<Rightarrow> real \<Rightarrow> real \<Rightarrow> real \<Rightarrow> oscillator" where
  "enveloped f t d v =
     \<lparr>frequency = f,
      gain = [SetValueAtTime 0 t,
              LinearRampToValueAtTime v (t + 0.2),
              ExponentialRampToValueAtTime (v / 2) (t + d - 0.2),
              ExponentialRampToValueAtTime 0.001 (t + d)],
      startTime = t,
      stopTime = t + d\<rparr>"

text \<open>The clock at note \<open>i\<close>: the start of the pass plus the durations of the notes before.\<close>

definition note_clock :: "real \<Rightarrow> nat \<Rightarrow> real" where
  "note_clock t0 i = t0 + sum_list (map snd (take i melody))"

text \<open>
  What sounds at note \<open>i\<close> (counted from 0): the note itself; under every third note a
  harmony at 1.5 times the frequency and 0.3 of the volume; under every fourth note an
  octave at twice the frequency, 0.1 later, at 0.2 of the volume and 0.8 of the duration.
\<close>

definition notes_at :: "real \<Rightarrow> nat \<Rightarrow> oscillator list" where
  "notes_at t0 i =
     (let f = fst (melody ! i); d = snd (melody ! i); t = note_clock t0 i
      in [enveloped f t d 0.03] @
         (if 3 dvd i then [enveloped (1.5 * f) t d (0.03 * 0.3)] else []) @
         (if 4 dvd i then [enveloped (2 * f) (t + 0.1) (0.8 * d) (0.03 * 0.2)] else []))"

section \<open>Observations and sample inputs\<close>

text \<open>The status line on the page: that of the lock screen, while it is mounted.\<close>

definition shown :: "app \<Rightarrow> jsstring option" where
  "shown s = map_option status (lockScreen s)"

text \<open>The passing of \<open>n\<close> milliseconds, as a list of events.\<close>

definition wait :: "nat \<Rightarrow> event list" where
  "wait n = replicate n Tick"

text \<open>
  A browser with speech recognition and Web Audio, whose audio contexts start running,
  and the text "hello".
\<close>

definition a_browser :: platform where
  "a_browser =
     \<lparr>speechAvailable = True, audioAvailable = True, audioStartsSuspended = False,
      resumeSucceeds = True, randomSeq = (\<lambda>k. 1 / 2)\<rparr>"

definition hello :: jsstring where
  "hello = [0x68, 0x65, 0x6C, 0x6C, 0x6F]"

text \<open>
  The lock screen while the recogniser is capturing, with a text typed into the fallback
  box; the same after a typed "hello" was turned down, whose status reset is still
  pending; and the typing and submitting of "hello" on a fresh page.
\<close>

definition capturing_with :: "jsstring \<Rightarrow> app" where
  "capturing_with typed = run [LockClick, SpeechStart, FallbackChange typed] (initial a_browser)"

definition retrying_with :: "jsstring \<Rightarrow> app" where
  "retrying_with typed =
     run [FallbackChange hello, FallbackSubmit, LockClick, SpeechStart, FallbackChange typed]
       (initial a_browser)"

definition typed_hello :: "event list" where
  "typed_hello = [FallbackChange hello, FallbackSubmit]"

text \<open>
  A recognition error, and 1.5 seconds later a second attempt that is misheard as
  "hello".
\<close>

definition hasty_retry :: "event list" where
  "hasty_retry =
     [LockClick, SpeechStart, SpeechError] @ wait 1500 @
     [LockClick, SpeechStart, SpeechResult hello]"

text \<open>
  The outcome of the proposal is \<open>Accepted\<close> once \<^verbatim>\<open>celebrationMode\<close> is set and
  \<open>Pending\<close> before; the source has no state for a refusal.
\<close>

datatype ProposalOutcome = Pending | Accepted

definition outcome :: "ProposalScreen \<Rightarrow> ProposalOutcome" where
  "outcome p = (if celebrationMode p then Accepted else Pending)"

definition on_screen :: "real \<times> real \<Rightarrow> bool" where
  "on_screen pos = (10 \<le> fst pos \<and> fst pos \<le> 90 \<and> 10 \<le> snd pos \<and> snd pos \<le> 90)"

text \<open>\<^verbatim>\<open>Math.random()\<close> returns a number from 0 up to, and not including, 1.\<close>

definition random_in_range :: "platform \<Rightarrow> bool" where
  "random_in_range b = (\<forall>k. 0 \<le> randomSeq b k \<and> randomSeq b k < 1)"

text \<open>
  The proposal screen with the two buttons on it, as it is 2 seconds after the
  declaration was revealed.
\<close>

definition deciding :: app where
  "deciding =
     \<lparr>browser = a_browser, now = 0, nextTimer = 0, timers = [], randomCalls = 0, audio = [],
      recognition = Idle, currentStage = proposal, lockScreen = None, loveLetter = None,
      proposalScreen = Some \<lparr>showHint = False, showProposal = True, showButtons = True,
                              celebrationMode = False, buttonPosition = (50, 80),
                              timer1 = 0\<rparr>\<rparr>"

text \<open>
  A property of the proposal screen that its timers and its controls other than "Yes"
  keep: the hint, the declaration, the buttons and each relocation preserve it.
\<close>

definition kept_by_proposal_updates :: "platform \<Rightarrow> (ProposalScreen \<Rightarrow> bool) \<Rightarrow> bool" where
  "kept_by_proposal_updates b Q =
     ((\<forall>p. Q p \<longrightarrow> Q (p\<lparr>showHint := True\<rparr>) \<and> Q (p\<lparr>showButtons := True\<rparr>) \<and>
                     Q (p\<lparr>showHint := False, showProposal := True\<rparr>)) \<and>
      (\<forall>p k j. Q p \<longrightarrow>
         Q (p\<lparr>buttonPosition := (randomSeq b k * 80 + 10, randomSeq b j * 80 + 10)\<rparr>)))"

definition fresh_proposal :: "nat \<Rightarrow> ProposalScreen" where
  "fresh_proposal i =
     \<lparr>showHint = False, showProposal = False, showButtons = False, celebrationMode = False,
      buttonPosition = (50, 80), timer1 = i\<rparr>"

definition proposal_has :: "(ProposalScreen \<Rightarrow> bool) \<Rightarrow> app \<Rightarrow> bool" where
  "proposal_has Q s = (case proposalScreen s of None \<Rightarrow> True | Some p \<Rightarrow> Q p)"

text \<open>
  The reveal progress on the page, whether the reveal interval is still set, and the
  time that passes during a list of events (one millisecond for each \<open>Tick\<close>).
\<close>

definition revealProgress :: "app \<Rightarrow> nat" where
  "revealProgress s = (case loveLetter s of None \<Rightarrow> 0 | Some l \<Rightarrow> visibleParagraphs l)"

definition reveal_pending :: "app \<Rightarrow> bool" where
  "reveal_pending s = list_ex (\<lambda>tm. cb tm = RevealTick) (timers s)"

definition elapsed :: "event list \<Rightarrow> nat" where
  "elapsed es = length (filter (\<lambda>e. e = Tick) es)"

text \<open>What the reveal depends on: the stage, the counter and the reveal timers.\<close>

definition reveal_view :: "app \<Rightarrow> AppStage \<times> nat option \<times> timer list" where
  "reveal_view s =
     (currentStage s, map_option visibleParagraphs (loveLetter s),
      filter (\<lambda>tm. cb tm = RevealTick) (timers s))"

text \<open>
  The reveal, \<open>t\<close> milliseconds after the letter was mounted at time \<open>n0\<close> with the
  interval handle \<open>h\<close>: one paragraph for every full period of 1200 milliseconds up to
  all of them, and the interval set for the next multiple of the period until it has
  fired once more than there are paragraphs.
\<close>

definition reveal_at :: "nat \<Rightarrow> nat \<Rightarrow> nat \<Rightarrow> app \<Rightarrow> bool" where
  "reveal_at h n0 t s =
     (now s = n0 + t \<and>
      reveal_view s =
        (letter, Some (min (t div 1200) (length letterParagraphs)),
         if t < 1200 * (length letterParagraphs + 1)
         then [\<lparr>tid = h, due = n0 + 1200 * (t div 1200 + 1), interval = Some 1200,
                cb = RevealTick\<rparr>]
         else []))"

text \<open>
  Fast forward to the time \<open>T\<close>: jump to just before the earliest due time, let one
  millisecond pass, and go on; \<open>None\<close> when the fuel runs out or a timer is overdue.
\<close>

fun fast_forward :: "nat \<Rightarrow> nat \<Rightarrow> app \<Rightarrow> app option" where
  "fast_forward 0 T s = None"
| "fast_forward (Suc fuel) T s =
     (if T < now s \<or> \<not> list_all (\<lambda>tm. now s < due tm) (timers s) then None
      else if list_all (\<lambda>tm. T < due tm) (timers s) then Some (s\<lparr>now := T\<rparr>)
      else fast_forward fuel T (tick (s\<lparr>now := fold min (map due (timers s)) T - 1\<rparr>)))"

text \<open>
  What is observed of the audio engine: the re-arm timers that are set, the number of
  notes created on the audio contexts, and the \<^verbatim>\<open>isPlaying\<close> of the letter.
\<close>

definition is_rearm :: "callback \<Rightarrow> bool" where
  "is_rearm c = (case c of RearmMelody p h t \<Rightarrow> True | _ \<Rightarrow> False)"

definition armed_passes :: "app \<Rightarrow> timer list" where
  "armed_passes s = filter (\<lambda>tm. is_rearm (cb tm)) (timers s)"

definition scheduled_notes :: "app \<Rightarrow> nat" where
  "scheduled_notes s = sum_list (map (\<lambda>c. length (oscillators c)) (audio s))"

definition musicPlaying :: "app \<Rightarrow> bool" where
  "musicPlaying s = (case loveLetter s of None \<Rightarrow> False | Some l \<Rightarrow> isPlaying l)"

text \<open>
  Three more sessions. In \<open>music_started\<close> the name is typed, the letter opens 1.5 seconds
  later and the music starts half a second after that. In \<open>letter_read\<close> the letter is
  then read for 11.5 seconds and the next page is asked for. In \<open>reading_aloud\<close> the name
  is spoken, the lock is tapped again while it opens, so that the recogniser is
  capturing when the letter appears, and the next page is asked for 12 seconds later.
\<close>

definition music_started :: "event list" where
  "music_started = [FallbackChange radha_latin, FallbackSubmit] @ wait 1500 @ wait 500"

definition letter_read :: "event list" where
  "letter_read = music_started @ wait 11500 @ [ContinueClick]"

definition reading_aloud :: "event list" where
  "reading_aloud =
     [LockClick, SpeechStart, SpeechResult radha_latin, LockClick, SpeechStart] @
     wait 1500 @ wait 12000 @ [ContinueClick]"


definition accepted_session :: "event list" where
  "accepted_session = reading_aloud @ wait 1000 @ [RevealClick] @ wait 2000 @ [YesClick]"

text \<open>The letter as it opens on a fresh page.\<close>

definition letter_opened :: app where
  "letter_opened = setCurrentStage letter (initial a_browser)"

section \<open>The phrase matcher\<close>

lemma startsWith_iff: "startsWith s p \<longleftrightarrow> (\<exists>b. s = p @ b)"
  by (induction s p rule: startsWith.induct) auto

lemma includes_str_iff: "includes_str s p \<longleftrightarrow> (\<exists>a b. s = a @ p @ b)"
proof (induction s)
  case Nil
  show ?case by auto
next
  case (Cons c cs)
  show ?case
  proof
    assume "includes_str (c # cs) p"
    then consider "startsWith (c # cs) p" | "includes_str cs p" by auto
    then show "\<exists>a b. c # cs = a @ p @ b"
    proof cases
      case 1
      then obtain b where "c # cs = p @ b" by (auto simp: startsWith_iff)
      then have "c # cs = [] @ p @ b" by simp
      then show ?thesis by blast
    next
      case 2
      then obtain a b where "cs = a @ p @ b" using Cons.IH by blast
      then have "c # cs = (c # a) @ p @ b" by simp
      then show ?thesis by blast
    qed
  next
    assume "\<exists>a b. c # cs = a @ p @ b"
    then obtain a b where ab: "c # cs = a @ p @ b" by blast
    show "includes_str (c # cs) p"
    proof (cases a)
      case Nil
      with ab have "startsWith (c # cs) p" by (auto simp: startsWith_iff)
      then show ?thesis by simp
    next
      case (Cons x xs)
      with ab have "cs = xs @ p @ b" by simp
      then have "includes_str cs p" using Cons.IH by blast
      then show ?thesis by simp
    qed
  qed
qed

lemma includes_str_map:
  "includes_str (map f s) p \<longleftrightarrow> (\<exists>v. map f v = p \<and> includes_str s v)"
  unfolding includes_str_iff
  by (auto simp: map_eq_append_conv append_eq_map_conv) metis

lemma toLowerCase_unit_iff:
  "\<not> (0x41 \<le> a \<and> a \<le> 0x5A) \<Longrightarrow>
     toLowerCase_unit b = a \<longleftrightarrow> b = a \<or> b = toUpperCase_unit a"
  unfolding toLowerCase_unit_def toUpperCase_unit_def
  by (auto simp: word_le_nat_alt word_less_nat_alt unat_word_ariths) unat_arith+

lemma map_eq_iff_list_all2:
  "(\<And>a b. a \<in> set p \<Longrightarrow> f b = a \<longleftrightarrow> R a b) \<Longrightarrow> map f v = p \<longleftrightarrow> list_all2 R p v"
proof (induction p arbitrary: v)
  case Nil
  show ?case by simp
next
  case (Cons a p)
  show ?case
  proof (cases v)
    case Nil
    then show ?thesis by simp
  next
    case (Cons b w)
    have hd: "f b = a \<longleftrightarrow> R a b"
      using Cons.prems [of a b] by simp
    have "\<And>a b. a \<in> set p \<Longrightarrow> f b = a \<longleftrightarrow> R a b"
      using Cons.prems by simp
    then have tl: "map f w = p \<longleftrightarrow> list_all2 R p w"
      by (rule Cons.IH)
    show ?thesis
      unfolding Cons using hd tl by simp
  qed
qed

lemma toLowerCase_case_mixture:
  assumes "list_all (\<lambda>a. \<not> (0x41 \<le> a \<and> a \<le> 0x5A)) p"
  shows "toLowerCase v = p \<longleftrightarrow> case_mixture p v"
  unfolding toLowerCase_def case_mixture_def
proof (rule map_eq_iff_list_all2)
  fix a b
  assume "a \<in> set p"
  with assms have "\<not> (0x41 \<le> a \<and> a \<le> 0x5A)"
    unfolding list_all_iff by blast
  then show "toLowerCase_unit b = a \<longleftrightarrow> b = a \<or> b = toUpperCase_unit a"
    by (rule toLowerCase_unit_iff)
qed

lemma accepted_no_capitals:
  "list_all (list_all (\<lambda>a. \<not> (0x41 \<le> a \<and> a \<le> 0x5A))) accepted_phrases"
  by (simp add: accepted_phrases_def radha_radha_latin_def radha_radha_devanagari_def
      radha_latin_def radha_devanagari_def)

lemma includes_lower_iff:
  assumes "p \<in> set accepted_phrases"
  shows "includes_str (toLowerCase t) p \<longleftrightarrow> (\<exists>v. case_mixture p v \<and> includes_str t v)"
proof -
  have "list_all (\<lambda>a. \<not> (0x41 \<le> a \<and> a \<le> 0x5A)) p"
    using accepted_no_capitals assms unfolding list_all_iff by blast
  then have mix: "toLowerCase v = p \<longleftrightarrow> case_mixture p v" for v
    by (rule toLowerCase_case_mixture)
  have "includes_str (toLowerCase t) p \<longleftrightarrow> (\<exists>v. toLowerCase v = p \<and> includes_str t v)"
    unfolding toLowerCase_def by (rule includes_str_map)
  then show ?thesis
    unfolding mix .
qed

lemma matches_iff_contains: "matches t \<longleftrightarrow> contains_accepted_phrase t"
proof -
  have "matches t \<longleftrightarrow> (\<exists>p \<in> set accepted_phrases. includes_str (toLowerCase t) p)"
    by (simp add: matches_def accepted_phrases_def Let_def)
  then show ?thesis
    unfolding contains_accepted_phrase_def using includes_lower_iff by blast
qed

text \<open>
  Claim C1. The phrase matcher is a function of its input text alone. It returns true
  for every text that holds an accepted phrase, Latin or Devanagari, in any mixture of
  upper and lower case; it returns false for every text that holds none; and it returns
  false for the empty text.
\<close>
theorem matches_exactly_the_accepted_phrases:
  "(contains_accepted_phrase t \<longrightarrow> matches t) \<and>
   (\<not> contains_accepted_phrase t \<longrightarrow> \<not> matches t) \<and>
   \<not> matches []"
proof -
  have "\<not> matches []"
    by (simp add: matches_def toLowerCase_def radha_radha_latin_def
        radha_radha_devanagari_def radha_latin_def radha_devanagari_def)
  then show ?thesis
    using matches_iff_contains [of t] by simp
qed

theorem matches_exactly_the_accepted_phrases_witness:
  "contains_accepted_phrase [0x52, 0x61, 0x44, 0x68, 0x41] \<and>
   matches [0x52, 0x61, 0x44, 0x68, 0x41] \<and>
   \<not> contains_accepted_phrase [0x68, 0x65, 0x6C, 0x6C, 0x6F] \<and>
   \<not> matches [0x68, 0x65, 0x6C, 0x6C, 0x6F]"
proof -
  have mix: "case_mixture radha_latin [0x52, 0x61, 0x44, 0x68, 0x41]"
    by (simp add: case_mixture_def radha_latin_def toUpperCase_unit_def)
  have "includes_str [0x52, 0x61, 0x44, 0x68, 0x41 :: 16 word] [0x52, 0x61, 0x44, 0x68, 0x41]"
    by simp
  with mix have yes: "contains_accepted_phrase [0x52, 0x61, 0x44, 0x68, 0x41]"
    unfolding contains_accepted_phrase_def accepted_phrases_def by auto
  have no: "\<not> matches [0x68, 0x65, 0x6C, 0x6C, 0x6F]"
    by (simp add: matches_def toLowerCase_def toLowerCase_unit_def radha_radha_latin_def
        radha_radha_devanagari_def radha_latin_def radha_devanagari_def)
  show ?thesis
    using yes no
      matches_exactly_the_accepted_phrases [of "[0x52, 0x61, 0x44, 0x68, 0x41]"]
      matches_exactly_the_accepted_phrases [of "[0x68, 0x65, 0x6C, 0x6C, 0x6F]"]
    by blast
qed

lemma includes_str_longer:
  "includes_str u (p @ q) \<Longrightarrow> includes_str u p"
proof -
  assume "includes_str u (p @ q)"
  then obtain a b where "u = a @ (p @ q) @ b"
    unfolding includes_str_iff by blast
  then have "u = a @ p @ (q @ b)" by simp
  then show "includes_str u p"
    unfolding includes_str_iff by blast
qed

lemma two_words_latin: "radha_radha_latin = radha_latin @ [0x20] @ radha_latin"
  by (simp add: radha_radha_latin_def radha_latin_def)

lemma two_words_devanagari:
  "radha_radha_devanagari = radha_devanagari @ [0x20] @ radha_devanagari"
  by (simp add: radha_radha_devanagari_def radha_devanagari_def)

lemma matches_single_word:
  "matches t \<longleftrightarrow>
     includes_str (toLowerCase t) radha_latin \<or> includes_str (toLowerCase t) radha_devanagari"
  unfolding matches_def Let_def two_words_latin two_words_devanagari
  using includes_str_longer by blast

lemma toLowerCase_radha_latin: "toLowerCase radha_latin = radha_latin"
  by (simp add: toLowerCase_def toLowerCase_unit_def radha_latin_def)

lemma matches_embedded: "matches (a @ radha_latin @ b)"
proof -
  have "toLowerCase (a @ radha_latin @ b) = toLowerCase a @ radha_latin @ toLowerCase b"
    using toLowerCase_radha_latin by (simp add: toLowerCase_def)
  then have "includes_str (toLowerCase (a @ radha_latin @ b)) radha_latin"
    unfolding includes_str_iff by blast
  then show ?thesis
    by (simp add: matches_single_word)
qed

text \<open>
  Claim C10. The unlock condition holds exactly when the lower-cased input holds
  "radha" or its Devanagari spelling as a substring. So every text with "radha" embedded
  anywhere unlocks ("aradhana" and "radhakrishna" are the third and fourth conjunct), and
  the two checks for the doubled word are subsumed by the checks for the single word.
\<close>
theorem matches_is_the_single_word_check:
  "(matches t \<longleftrightarrow>
      includes_str (toLowerCase t) radha_latin \<or> includes_str (toLowerCase t) radha_devanagari) \<and>
   matches (a @ radha_latin @ b) \<and>
   matches [0x61, 0x72, 0x61, 0x64, 0x68, 0x61, 0x6E, 0x61] \<and>
   matches [0x72, 0x61, 0x64, 0x68, 0x61, 0x6B, 0x72, 0x69, 0x73, 0x68, 0x6E, 0x61] \<and>
   (includes_str u radha_radha_latin \<longrightarrow> includes_str u radha_latin) \<and>
   (includes_str u radha_radha_devanagari \<longrightarrow> includes_str u radha_devanagari)"
proof -
  have "matches ([0x61] @ radha_latin @ [0x6E, 0x61])"
    by (rule matches_embedded)
  then have m1: "matches [0x61, 0x72, 0x61, 0x64, 0x68, 0x61, 0x6E, 0x61]"
    by (simp add: radha_latin_def)
  have "matches ([] @ radha_latin @ [0x6B, 0x72, 0x69, 0x73, 0x68, 0x6E, 0x61])"
    by (rule matches_embedded)
  then have m2: "matches [0x72, 0x61, 0x64, 0x68, 0x61, 0x6B, 0x72, 0x69, 0x73, 0x68, 0x6E, 0x61]"
    by (simp add: radha_latin_def)
  have s1: "includes_str u radha_radha_latin \<longrightarrow> includes_str u radha_latin"
    unfolding two_words_latin using includes_str_longer by blast
  have s2: "includes_str u radha_radha_devanagari \<longrightarrow> includes_str u radha_devanagari"
    unfolding two_words_devanagari using includes_str_longer by blast
  show ?thesis
    using matches_single_word [of t] matches_embedded [of a b] m1 m2 s1 s2 by blast
qed

theorem matches_is_the_single_word_check_witness:
  "includes_str radha_radha_latin radha_radha_latin \<and>
   includes_str radha_radha_latin radha_latin \<and>
   includes_str radha_radha_devanagari radha_radha_devanagari \<and>
   includes_str radha_radha_devanagari radha_devanagari \<and>
   matches radha_radha_devanagari"
proof -
  have h1: "includes_str radha_radha_latin radha_radha_latin"
    by (simp add: radha_radha_latin_def)
  have h2: "includes_str radha_radha_devanagari radha_radha_devanagari"
    by (simp add: radha_radha_devanagari_def)
  have low: "toLowerCase radha_radha_devanagari = radha_radha_devanagari"
    by (simp add: toLowerCase_def toLowerCase_unit_def radha_radha_devanagari_def)
  show ?thesis
    using h1 h2 low
      matches_is_the_single_word_check [of radha_radha_devanagari "[]" "[]" radha_radha_latin]
      matches_is_the_single_word_check [of radha_radha_devanagari "[]" "[]" radha_radha_devanagari]
    by simp
qed

section \<open>The melody\<close>

lemma melody_indices: "[0..<length melody] = [0, 1, 2, 3, 4, 5, 6, 7, 8, 9]"
  by (simp add: melody_def upt_rec)

lemma playNote_enveloped: "playNote f t d v = enveloped f t d (0.03 * v)"
  by (simp add: playNote_def enveloped_def Let_def)

text \<open>
  One pass of \<^verbatim>\<open>melody.forEach\<close> creates the melody as \<open>notes_at\<close> words it, and
  leaves the clock at the start of the pass plus the sum of the durations.
\<close>

lemma playMelody_pass_melody:
  "playMelody_pass 0 melody t0 =
     (concat (map (notes_at t0) [0..<length melody]), t0 + sum_list (map snd melody))"
  unfolding melody_indices
  by (simp add: playNote_enveloped notes_at_def note_clock_def melody_def Let_def add.commute)

lemma rearm_delay_value: "rearm_delay = 13200"
  by (simp add: rearm_delay_def melody_def)

section \<open>Time without due timers, and a single timeout\<close>

lemma tick_idle:
  "\<forall>tm \<in> set (timers s). now s + 1 < due tm \<Longrightarrow> tick s = s\<lparr>now := now s + 1\<rparr>"
proof -
  assume "\<forall>tm \<in> set (timers s). now s + 1 < due tm"
  then have "filter (\<lambda>tm. due tm \<le> now s + 1) (timers s) = []"
    by (auto simp: filter_empty_conv)
  then show ?thesis by (simp add: tick_def)
qed

lemma elapse_idle:
  "\<forall>tm \<in> set (timers s). now s + d < due tm \<Longrightarrow> elapse d s = s\<lparr>now := now s + d\<rparr>"
proof (induction d)
  case 0
  show ?case by simp
next
  case (Suc d)
  have "\<forall>tm \<in> set (timers s). now s + d < due tm"
    using Suc.prems by fastforce
  then have "elapse d s = s\<lparr>now := now s + d\<rparr>" by (rule Suc.IH)
  moreover have "tick (s\<lparr>now := now s + d\<rparr>) = s\<lparr>now := now s + d + 1\<rparr>"
    using Suc.prems tick_idle [of "s\<lparr>now := now s + d\<rparr>"] by auto
  ultimately show ?case by simp
qed

lemma elapse_add: "elapse (a + b) s = elapse b (elapse a s)"
  by (induction b) simp_all

lemma elapse_to_next:
  "\<forall>tm \<in> set (timers s). now s + d < due tm \<Longrightarrow>
     elapse (Suc d) s = tick (s\<lparr>now := now s + d\<rparr>)"
proof -
  assume "\<forall>tm \<in> set (timers s). now s + d < due tm"
  then have "elapse d s = s\<lparr>now := now s + d\<rparr>" by (rule elapse_idle)
  then show ?thesis by simp
qed

lemma tick_single_timeout:
  "timers s = [tm] \<Longrightarrow> due tm = now s + 1 \<Longrightarrow> interval tm = None \<Longrightarrow>
     tick s = run_callback tm (s\<lparr>now := now s + 1, timers := []\<rparr>)"
  by (simp add: tick_def fire_def)

lemma elapse_single_timeout:
  assumes "timers s = [tm]" "due tm = now s + Suc d" "interval tm = None"
  shows "elapse (Suc d) s = run_callback tm (s\<lparr>now := now s + Suc d, timers := []\<rparr>)"
proof -
  have "elapse (Suc d) s = tick (s\<lparr>now := now s + d\<rparr>)"
    using assms by (intro elapse_to_next) simp
  also have "\<dots> = run_callback tm (s\<lparr>now := now s + d\<rparr>\<lparr>now := now (s\<lparr>now := now s + d\<rparr>) + 1, timers := []\<rparr>)"
    using assms by (intro tick_single_timeout) simp_all
  finally show ?thesis by simp
qed

lemmas lock_defs =
  onResult_def onError_def onStart_def handleFallbackSubmit_def LockScreen_handleUnlock_def
  setStatus_def setLockIcon_def setIsListening_def setFallbackValue_def updLock_def
  setTimeout_at_def

section \<open>What can change the stage\<close>

lemmas primitive_defs =
  setTimeout_at_def setInterval_at_def clearTimer_def Math_random_def
  updLock_def updLetter_def updProposal_def
  setStatus_def setLockIcon_def setIsListening_def setFallbackValue_def

lemma stage_primitives [simp]:
  "currentStage (setTimeout_at d c s) = currentStage s"
  "currentStage (setInterval_at d c s) = currentStage s"
  "currentStage (clearTimer h s) = currentStage s"
  "currentStage (updLock f s) = currentStage s"
  "currentStage (updLetter g s) = currentStage s"
  "currentStage (updProposal k s) = currentStage s"
  "currentStage (setStatus x s) = currentStage s"
  "currentStage (setLockIcon x s) = currentStage s"
  "currentStage (setIsListening b s) = currentStage s"
  "currentStage (setFallbackValue x s) = currentStage s"
  by (simp_all add: primitive_defs)

lemma stage_playMelody [simp]: "currentStage (playMelody p h t s) = currentStage s"
  by (simp add: playMelody_def Let_def)

lemma stage_startMusic [simp]: "currentStage (startMusic p s) = currentStage s"
  by (simp add: startMusic_def split: option.splits)

lemma stage_stopMusic [simp]: "currentStage (stopMusic s) = currentStage s"
  by (simp add: stopMusic_def)

lemma stage_setIsPlaying [simp]: "currentStage (setIsPlaying p s) = currentStage s"
  by (simp add: setIsPlaying_def isPlaying_effect_def isPlaying_cleanup_def split: option.splits)

lemma stage_revealTick [simp]: "currentStage (revealTick h s) = currentStage s"
  by (simp add: revealTick_def split: option.splits)

lemma stage_relocate [simp]: "currentStage (relocate s) = currentStage s"
  by (simp add: relocate_def Math_random_def Let_def split: prod.splits)

lemma stage_mount [simp]: "currentStage (mount_stage st s) = currentStage s"
  by (cases st)
    (simp_all add: mount_stage_def LockScreen_mount_def LoveLetter_mount_def
      ProposalScreen_mount_def BackgroundMusic_mount_def isPlaying_effect_def Let_def
      split: prod.splits)

lemma stage_setCurrentStage [simp]: "currentStage (setCurrentStage st s) = st"
  by (simp add: setCurrentStage_def)

lemma stage_lock_handlers [simp]:
  "currentStage (LockScreen_handleUnlock s) = currentStage s"
  "currentStage (onResult t s) = currentStage s"
  "currentStage (onError s) = currentStage s"
  "currentStage (onStart s) = currentStage s"
  "currentStage (handleLockClick s) = currentStage s"
  "currentStage (handleFallbackSubmit s) = currentStage s"
  by (simp_all add: LockScreen_handleUnlock_def onResult_def onError_def onStart_def
      handleLockClick_def startListening_def handleFallbackSubmit_def split: option.splits)

lemma stage_other_handlers [simp]:
  "currentStage (handleToggle s) = currentStage s"
  "currentStage (ProposalScreen_handleRevealProposal s) = currentStage s"
  "currentStage (handleYes s) = currentStage s"
  "currentStage (handleNo s) = currentStage s"
  by (simp_all add: handleToggle_def ProposalScreen_handleRevealProposal_def handleYes_def
      handleNo_def Let_def split: option.splits)









section \<open>The lock stage\<close>

lemma timeout_evolution:
  assumes "timers s = [tm]" "due tm = now s + Suc k" "interval tm = None"
  shows "elapse d s =
           (if d \<le> k then s\<lparr>now := now s + d\<rparr>
            else elapse (d - Suc k) (run_callback tm (s\<lparr>now := now s + Suc k, timers := []\<rparr>)))"
proof (cases "d \<le> k")
  case True
  then have "elapse d s = s\<lparr>now := now s + d\<rparr>"
    using assms by (intro elapse_idle) simp
  with True show ?thesis by simp
next
  case False
  then have "elapse d s = elapse (Suc k + (d - Suc k)) s" by simp
  also have "\<dots> = elapse (d - Suc k) (elapse (Suc k) s)" by (simp only: elapse_add)
  also have "elapse (Suc k) s = run_callback tm (s\<lparr>now := now s + Suc k, timers := []\<rparr>)"
    using assms by (rule elapse_single_timeout)
  finally show ?thesis using False by simp
qed

lemma reset_evolution:
  assumes "lockScreen s = Some l"
    and "timers s = [\<lparr>tid = i, due = now s + Suc k, interval = None, cb = ResetStatus\<rparr>]"
  shows "shown (elapse d s) = Some (if d \<le> k then status l else status_prompt) \<and>
         currentStage (elapse d s) = currentStage s"
proof -
  define tm where "tm = \<lparr>tid = i, due = now s + Suc k, interval = None, cb = ResetStatus\<rparr>"
  define s' where "s' = run_callback tm (s\<lparr>now := now s + Suc k, timers := []\<rparr>)"
  have ev: "elapse d s = (if d \<le> k then s\<lparr>now := now s + d\<rparr> else elapse (d - Suc k) s')"
    unfolding s'_def using assms(2) by (intro timeout_evolution) (simp_all add: tm_def)
  have s': "s' = s\<lparr>now := now s + Suc k, timers := [], lockScreen := Some (l\<lparr>status := status_prompt\<rparr>)\<rparr>"
    using assms(1) by (simp add: s'_def tm_def run_callback_def setStatus_def updLock_def)
  have "elapse (d - Suc k) s' = s'\<lparr>now := now s' + (d - Suc k)\<rparr>"
    by (intro elapse_idle) (simp add: s')
  with ev s' assms(1) show ?thesis
    by (simp add: shown_def)
qed

text \<open>
  Claim C4, as amended. On the lock screen with nothing pending, an input that does not
  match changes no stage. A misheard voice input puts the heard text, literally, into a
  "try again" line that stays for 3 seconds, after which the prompt is back. A typed
  input that does not match shows a fixed "wrong word" line, without the typed text, for
  2 seconds. A recognition error shows a fixed line for 2 seconds.
\<close>
theorem lock_failures_show_a_message_then_the_prompt:
  assumes "lockScreen s = Some l" and "timers s = []" and "currentStage s = lock"
  shows
    "(recognition s = Capturing \<and> \<not> matches t \<longrightarrow>
        shown (elapse d (step (SpeechResult t) s)) =
          Some (if d < 3000 then status_heard_prefix @ t @ status_heard_suffix
                else status_prompt) \<and>
        currentStage (elapse d (step (SpeechResult t) s)) = lock) \<and>
     (showFallback l \<and> \<not> matches (fallbackValue l) \<longrightarrow>
        shown (elapse d (step FallbackSubmit s)) =
          Some (if d < 2000 then status_wrong_word else status_prompt) \<and>
        currentStage (elapse d (step FallbackSubmit s)) = lock) \<and>
     (recognition s \<noteq> Idle \<longrightarrow>
        shown (elapse d (step SpeechError s)) =
          Some (if d < 2000 then status_error else status_prompt) \<and>
        currentStage (elapse d (step SpeechError s)) = lock)"
proof (intro conjI impI)
  assume a: "recognition s = Capturing \<and> \<not> matches t"
  define s1 where "s1 = step (SpeechResult t) s"
  have "lockScreen s1 =
          Some (l\<lparr>status := status_heard_prefix @ t @ status_heard_suffix, isListening := False\<rparr>)"
    and "timers s1 = [\<lparr>tid = nextTimer s, due = now s1 + Suc 2999, interval = None, cb = ResetStatus\<rparr>]"
    and st: "currentStage s1 = lock"
    using a assms by (simp_all add: s1_def step_def lock_defs)
  from reset_evolution [OF this(1,2), of d] st
  show "shown (elapse d (step (SpeechResult t) s)) =
          Some (if d < 3000 then status_heard_prefix @ t @ status_heard_suffix
                else status_prompt)"
    and "currentStage (elapse d (step (SpeechResult t) s)) = lock"
    unfolding s1_def [symmetric] by (auto simp: less_Suc_eq_le [symmetric])
next
  assume a: "showFallback l \<and> \<not> matches (fallbackValue l)"
  define s1 where "s1 = step FallbackSubmit s"
  have "lockScreen s1 = Some (l\<lparr>status := status_wrong_word\<rparr>)"
    and "timers s1 = [\<lparr>tid = nextTimer s, due = now s1 + Suc 1999, interval = None, cb = ResetStatus\<rparr>]"
    and st: "currentStage s1 = lock"
    using a assms by (simp_all add: s1_def step_def lock_defs)
  from reset_evolution [OF this(1,2), of d] st
  show "shown (elapse d (step FallbackSubmit s)) =
          Some (if d < 2000 then status_wrong_word else status_prompt)"
    and "currentStage (elapse d (step FallbackSubmit s)) = lock"
    unfolding s1_def [symmetric] by (auto simp: less_Suc_eq_le [symmetric])
next
  assume a: "recognition s \<noteq> Idle"
  define s1 where "s1 = step SpeechError s"
  have "lockScreen s1 = Some (l\<lparr>status := status_error, isListening := False\<rparr>)"
    and "timers s1 = [\<lparr>tid = nextTimer s, due = now s1 + Suc 1999, interval = None, cb = ResetStatus\<rparr>]"
    and st: "currentStage s1 = lock"
    using a assms by (simp_all add: s1_def step_def lock_defs)
  from reset_evolution [OF this(1,2), of d] st
  show "shown (elapse d (step SpeechError s)) =
          Some (if d < 2000 then status_error else status_prompt)"
    and "currentStage (elapse d (step SpeechError s)) = lock"
    unfolding s1_def [symmetric] by (auto simp: less_Suc_eq_le [symmetric])
qed

lemma not_matches_hello: "\<not> matches hello"
  by (simp add: hello_def matches_def toLowerCase_def toLowerCase_unit_def radha_radha_latin_def
      radha_radha_devanagari_def radha_latin_def radha_devanagari_def)

lemma matches_radha_latin: "matches radha_latin"
  by (simp add: matches_def toLowerCase_def toLowerCase_unit_def radha_latin_def)

lemma initial_state:
  "initial b =
     \<lparr>browser = b, now = 0, nextTimer = 0, timers = [], randomCalls = 0, audio = [],
      recognition = Idle, currentStage = lock,
      lockScreen = Some \<lparr>showFallback = True, fallbackValue = [], status = status_unsupported,
                          lockIcon = icon_locked, isListening = False,
                          isSupported = speechAvailable b\<rparr>,
      loveLetter = None, proposalScreen = None\<rparr>"
  by (simp add: initial_def LockScreen_mount_def)

lemma capturing_state:
  "capturing_with x =
     \<lparr>browser = a_browser, now = 0, nextTimer = 0, timers = [], randomCalls = 0, audio = [],
      recognition = Capturing, currentStage = lock,
      lockScreen = Some \<lparr>showFallback = True, fallbackValue = x, status = status_listening,
                          lockIcon = icon_locked, isListening = True, isSupported = True\<rparr>,
      loveLetter = None, proposalScreen = None\<rparr>"
  by (simp add: capturing_with_def initial_state step_def handleLockClick_def startListening_def
      onStart_def setStatus_def setIsListening_def setFallbackValue_def updLock_def a_browser_def)

theorem lock_failures_show_a_message_then_the_prompt_witness:
  "lockScreen (capturing_with hello) \<noteq> None \<and> timers (capturing_with hello) = [] \<and>
   currentStage (capturing_with hello) = lock \<and> recognition (capturing_with hello) = Capturing \<and>
   \<not> matches hello \<and>
   shown (elapse 2999 (step (SpeechResult hello) (capturing_with hello))) =
     Some (status_heard_prefix @ hello @ status_heard_suffix) \<and>
   shown (elapse 3000 (step (SpeechResult hello) (capturing_with hello))) = Some status_prompt \<and>
   shown (elapse 1999 (step FallbackSubmit (capturing_with hello))) = Some status_wrong_word \<and>
   shown (elapse 2000 (step FallbackSubmit (capturing_with hello))) = Some status_prompt \<and>
   shown (elapse 1999 (step SpeechError (capturing_with hello))) = Some status_error \<and>
   shown (elapse 2000 (step SpeechError (capturing_with hello))) = Some status_prompt"
proof -
  have h: "lockScreen (capturing_with hello) = Some (the (lockScreen (capturing_with hello)))"
    "timers (capturing_with hello) = []" "currentStage (capturing_with hello) = lock"
    by (simp_all add: capturing_state)
  have more: "recognition (capturing_with hello) = Capturing"
    "showFallback (the (lockScreen (capturing_with hello)))"
    "fallbackValue (the (lockScreen (capturing_with hello))) = hello"
    "lockScreen (capturing_with hello) \<noteq> None"
    by (simp_all add: capturing_state)
  show ?thesis
    using h more not_matches_hello
      lock_failures_show_a_message_then_the_prompt [OF h, of hello 2999]
      lock_failures_show_a_message_then_the_prompt [OF h, of hello 3000]
      lock_failures_show_a_message_then_the_prompt [OF h, of hello 1999]
      lock_failures_show_a_message_then_the_prompt [OF h, of hello 2000]
    by simp
qed





lemma retrying_state:
  "retrying_with x =
     \<lparr>browser = a_browser, now = 0, nextTimer = 1,
      timers = [\<lparr>tid = 0, due = 2000, interval = None, cb = ResetStatus\<rparr>],
      randomCalls = 0, audio = [],
      recognition = Capturing, currentStage = lock,
      lockScreen = Some \<lparr>showFallback = True, fallbackValue = x, status = status_listening,
                          lockIcon = icon_locked, isListening = True, isSupported = True\<rparr>,
      loveLetter = None, proposalScreen = None\<rparr>"
  by (simp add: retrying_with_def initial_state step_def handleFallbackSubmit_def
      not_matches_hello handleLockClick_def startListening_def onStart_def setStatus_def
      setIsListening_def setFallbackValue_def updLock_def setTimeout_at_def a_browser_def)


section \<open>What no event changes\<close>

lemmas app_defs =
  primitive_defs playMelody_def startMusic_def stopMusic_def music_ready_def
  isPlaying_effect_def isPlaying_cleanup_def setIsPlaying_def handleToggle_def
  BackgroundMusic_mount_def close_context_def BackgroundMusic_unmount_def
  LoveLetter_mount_def LoveLetter_unmount_def revealTick_def
  ProposalScreen_mount_def ProposalScreen_unmount_def ProposalScreen_handleRevealProposal_def
  handleYes_def relocate_def handleNo_def unmount_stage_def LockScreen_mount_def
  mount_stage_def setCurrentStage_def CombinedApp_handleUnlock_def
  CombinedApp_handleRevealProposal_def LockScreen_handleUnlock_def onResult_def onError_def
  onStart_def startListening_def handleLockClick_def handleFallbackSubmit_def

lemma browser_run_callback [simp]: "browser (run_callback tm s) = browser s"
  by (cases "cb tm")
    (auto simp add: run_callback_def app_defs Let_def
      split: option.splits prod.splits AppStage.splits)

lemma browser_fire [simp]: "browser (fire tm s) = browser s"
  by (simp add: fire_def)

lemma browser_fire_all [simp]: "browser (foldl (\<lambda>s' tm. fire tm s') s tms) = browser s"
  by (induction tms arbitrary: s) simp_all

lemma browser_tick [simp]: "browser (tick s) = browser s"
  by (simp add: tick_def)

lemma browser_step [simp]: "browser (step e s) = browser s"
  by (cases e)
    (auto simp add: step_def app_defs Let_def split: option.splits prod.splits AppStage.splits)

lemma browser_run [simp]: "browser (run es s) = browser s"
  by (induction es arbitrary: s) simp_all

section \<open>The proposal stage\<close>

lemma kept_run_callback:
  assumes "kept_by_proposal_updates (browser s) Q" and "proposal_has Q s"
  shows "proposal_has Q (run_callback tm s)"
  using assms
  by (cases "cb tm")
    (auto simp add: run_callback_def app_defs Let_def kept_by_proposal_updates_def
      proposal_has_def split: option.splits prod.splits AppStage.splits)

lemma kept_fire:
  assumes "kept_by_proposal_updates (browser s) Q" and "proposal_has Q s"
  shows "proposal_has Q (fire tm s)"
proof (cases "tm \<in> set (timers s)")
  case True
  let ?s = "s\<lparr>timers := (case interval tm of
                              None \<Rightarrow> remove1 tm (timers s)
                            | Some p \<Rightarrow> map (\<lambda>x. if x = tm then x\<lparr>due := due x + p\<rparr> else x)
                                         (timers s))\<rparr>"
  have "kept_by_proposal_updates (browser ?s) Q" "proposal_has Q ?s"
    using assms by (simp_all add: proposal_has_def)
  then have "proposal_has Q (run_callback tm ?s)"
    by (rule kept_run_callback)
  with True show ?thesis by (simp add: fire_def)
next
  case False
  with assms show ?thesis by (simp add: fire_def)
qed

lemma kept_fire_all:
  assumes "kept_by_proposal_updates (browser s) Q" and "proposal_has Q s"
  shows "proposal_has Q (foldl (\<lambda>s' tm. fire tm s') s tms)"
  using assms
proof (induction tms arbitrary: s)
  case Nil
  then show ?case by simp
next
  case (Cons tm tms)
  have "proposal_has Q (fire tm s)"
    using Cons.prems by (rule kept_fire)
  moreover have "kept_by_proposal_updates (browser (fire tm s)) Q"
    using Cons.prems by simp
  ultimately show ?case
    using Cons.IH [of "fire tm s"] by simp
qed

lemma kept_tick:
  assumes "kept_by_proposal_updates (browser s) Q" and "proposal_has Q s"
  shows "proposal_has Q (tick s)"
proof -
  have "proposal_has Q (s\<lparr>now := now s + 1\<rparr>)"
    using assms by (simp add: proposal_has_def)
  then show ?thesis
    unfolding tick_def using assms(1) by (intro kept_fire_all) simp_all
qed

lemma kept_step:
  assumes "kept_by_proposal_updates (browser s) Q" and "proposal_has Q s"
    and "e = YesClick \<longrightarrow> (\<forall>p. Q p \<longrightarrow> Q (p\<lparr>celebrationMode := True, showButtons := False\<rparr>))"
    and "e = ContinueClick \<longrightarrow> currentStage s = proposal \<or> (\<forall>i. Q (fresh_proposal i))"
  shows "proposal_has Q (step e s)"
proof (cases "e = Tick")
  case True
  then show ?thesis
    using kept_tick [OF assms(1,2)] by (simp add: step_def)
next
  case False
  then show ?thesis
    using assms
    by (cases e)
      (auto simp add: step_def app_defs Let_def kept_by_proposal_updates_def fresh_proposal_def
        proposal_has_def split: option.splits prod.splits AppStage.splits)
qed

lemma kept_run:
  assumes "kept_by_proposal_updates (browser s) Q" and "proposal_has Q s"
    and "YesClick \<in> set es \<longrightarrow> (\<forall>p. Q p \<longrightarrow> Q (p\<lparr>celebrationMode := True, showButtons := False\<rparr>))"
    and "\<forall>i. Q (fresh_proposal i)"
  shows "proposal_has Q (run es s)"
  using assms
proof (induction es arbitrary: s)
  case Nil
  then show ?case by simp
next
  case (Cons e es)
  have "proposal_has Q (step e s)"
    using Cons.prems by (intro kept_step) auto
  moreover have "kept_by_proposal_updates (browser (step e s)) Q"
    using Cons.prems by simp
  ultimately show ?case
    using Cons.IH [of "step e s"] Cons.prems by simp
qed

lemma relocation_on_screen:
  "random_in_range b \<Longrightarrow> on_screen (randomSeq b k * 80 + 10, randomSeq b j * 80 + 10)"
proof -
  assume "random_in_range b"
  then have "0 \<le> randomSeq b k" "randomSeq b k < 1" "0 \<le> randomSeq b j" "randomSeq b j < 1"
    by (simp_all add: random_in_range_def)
  then show ?thesis
    by (simp add: on_screen_def)
qed

lemma on_screen_kept:
  "random_in_range b \<Longrightarrow> kept_by_proposal_updates b (\<lambda>p. on_screen (buttonPosition p))"
  by (simp add: kept_by_proposal_updates_def relocation_on_screen)

lemma pending_kept: "kept_by_proposal_updates b (\<lambda>p. outcome p = Pending)"
  by (simp add: kept_by_proposal_updates_def outcome_def)

lemma accepted_kept: "kept_by_proposal_updates b (\<lambda>p. outcome p = Accepted)"
  by (simp add: kept_by_proposal_updates_def outcome_def)

text \<open>
  What holds of the two controls. With the two buttons on the page, every activation of
  the "No" control puts it at a new position drawn from \<^verbatim>\<open>Math.random\<close>, within 10
  and 90 on both axes, and leaves the outcome Pending, while the "Yes" control sets it to
  Accepted. The position stays within these bounds under every sequence of events. The
  outcome stays Pending under every sequence of events without an activation of "Yes".
  No single event in the Proposal stage turns an Accepted outcome of a screen that stays
  mounted into another one; what happens when the screen is unmounted is the matter of
  \<open>accepted_session\<close> below.
\<close>

lemma no_control_moves_and_never_declines:
  assumes "random_in_range (browser s)"
  shows
    "(proposalScreen s = Some p \<and> showButtons p \<and> \<not> celebrationMode p \<longrightarrow>
        (\<exists>p'. proposalScreen (step NoClick s) = Some p' \<and>
              buttonPosition p' =
                (randomSeq (browser s) (randomCalls s) * 80 + 10,
                 randomSeq (browser s) (randomCalls s + 1) * 80 + 10) \<and>
              on_screen (buttonPosition p') \<and> outcome p' = Pending) \<and>
        proposal_has (\<lambda>p'. outcome p' = Accepted) (step YesClick s) \<and>
        proposalScreen (step YesClick s) \<noteq> None) \<and>
     (proposal_has (\<lambda>p'. on_screen (buttonPosition p')) s \<longrightarrow>
        proposal_has (\<lambda>p'. on_screen (buttonPosition p')) (run es s)) \<and>
     (YesClick \<notin> set es \<and> proposal_has (\<lambda>p'. outcome p' = Pending) s \<longrightarrow>
        proposal_has (\<lambda>p'. outcome p' = Pending) (run es s)) \<and>
     (currentStage s = proposal \<and> proposal_has (\<lambda>p'. outcome p' = Accepted) s \<longrightarrow>
        proposal_has (\<lambda>p'. outcome p' = Accepted) (step e s))"
proof (intro conjI impI)
  assume a: "proposalScreen s = Some p \<and> showButtons p \<and> \<not> celebrationMode p"
  have pos: "on_screen (randomSeq (browser s) (randomCalls s) * 80 + 10,
                        randomSeq (browser s) (randomCalls s + 1) * 80 + 10)"
    using assms by (rule relocation_on_screen)
  show "\<exists>p'. proposalScreen (step NoClick s) = Some p' \<and>
              buttonPosition p' =
                (randomSeq (browser s) (randomCalls s) * 80 + 10,
                 randomSeq (browser s) (randomCalls s + 1) * 80 + 10) \<and>
              on_screen (buttonPosition p') \<and> outcome p' = Pending"
    using a pos
    by (simp add: step_def handleNo_def relocate_def Math_random_def setTimeout_at_def
        updProposal_def outcome_def)
  show "proposal_has (\<lambda>p'. outcome p' = Accepted) (step YesClick s)"
    using a by (simp add: step_def handleYes_def updProposal_def outcome_def proposal_has_def)
  show "proposalScreen (step YesClick s) \<noteq> None"
    using a by (simp add: step_def handleYes_def updProposal_def)
next
  assume "proposal_has (\<lambda>p'. on_screen (buttonPosition p')) s"
  with on_screen_kept [OF assms]
  show "proposal_has (\<lambda>p'. on_screen (buttonPosition p')) (run es s)"
    by (rule kept_run) (simp_all add: fresh_proposal_def on_screen_def)
next
  assume "YesClick \<notin> set es \<and> proposal_has (\<lambda>p'. outcome p' = Pending) s"
  then have "YesClick \<notin> set es" and "proposal_has (\<lambda>p'. outcome p' = Pending) s"
    by simp_all
  with pending_kept [of "browser s"]
  show "proposal_has (\<lambda>p'. outcome p' = Pending) (run es s)"
    by (intro kept_run) (simp_all add: fresh_proposal_def outcome_def)
next
  assume "currentStage s = proposal \<and> proposal_has (\<lambda>p'. outcome p' = Accepted) s"
  then have "currentStage s = proposal" and "proposal_has (\<lambda>p'. outcome p' = Accepted) s"
    by simp_all
  with accepted_kept [of "browser s"]
  show "proposal_has (\<lambda>p'. outcome p' = Accepted) (step e s)"
    by (intro kept_step) (simp_all add: outcome_def)
qed

lemma no_control_example:
  "random_in_range (browser deciding) \<and>
   showButtons (the (proposalScreen deciding)) \<and>
   \<not> celebrationMode (the (proposalScreen deciding)) \<and>
   map_option buttonPosition (proposalScreen (step NoClick deciding)) = Some (50, 50) \<and>
   map_option outcome (proposalScreen (step NoClick deciding)) = Some Pending \<and>
   proposal_has (\<lambda>p'. on_screen (buttonPosition p')) (run [NoClick, YesClick, Tick] deciding) \<and>
   proposal_has (\<lambda>p'. outcome p' = Pending) (run [NoClick, Tick, NoClick] deciding) \<and>
   proposal_has (\<lambda>p'. outcome p' = Accepted) (step Tick (step YesClick deciding))"
proof -
  let ?p = "the (proposalScreen deciding)"
  have r: "random_in_range (browser deciding)"
    by (simp add: deciding_def a_browser_def random_in_range_def)
  have p: "proposalScreen deciding = Some ?p" "showButtons ?p" "\<not> celebrationMode ?p"
    "randomSeq (browser deciding) (randomCalls deciding) = 1 / 2"
    "randomSeq (browser deciding) (randomCalls deciding + 1) = 1 / 2"
    "proposal_has (\<lambda>p'. on_screen (buttonPosition p')) deciding"
    "proposal_has (\<lambda>p'. outcome p' = Pending) deciding"
    by (simp_all add: deciding_def a_browser_def proposal_has_def on_screen_def outcome_def)
  have y: "currentStage (step YesClick deciding) = proposal"
    "random_in_range (browser (step YesClick deciding))"
    using r by (simp_all add: deciding_def step_def handleYes_def updProposal_def)
  have acc: "proposal_has (\<lambda>p'. outcome p' = Accepted) (step YesClick deciding)"
    using p no_control_moves_and_never_declines [OF r, of ?p "[]" Tick] by simp
  show ?thesis
    using r p y acc
      no_control_moves_and_never_declines [OF r, of ?p "[NoClick, YesClick, Tick]" Tick]
      no_control_moves_and_never_declines [OF r, of ?p "[NoClick, Tick, NoClick]" Tick]
      no_control_moves_and_never_declines [OF y(2), of ?p "[]" Tick]
    by auto
qed

section \<open>The letter stage\<close>

lemma filter_remove1_other: "\<not> P x \<Longrightarrow> filter P (remove1 x xs) = filter P xs"
  by (induction xs) auto

lemma filter_rearm_other:
  "\<not> P x \<Longrightarrow> (\<And>y. P (f y) = P y) \<Longrightarrow>
     filter P (map (\<lambda>y. if y = x then f y else y) xs) = filter P xs"
  by (induction xs) auto

lemma filter_rearm:
  "(\<And>y. P (f y) = P y) \<Longrightarrow>
     filter P (map (\<lambda>y. if y = x then f y else y) xs) =
     map (\<lambda>y. if y = x then f y else y) (filter P xs)"
  by (induction xs) auto

lemma view_run_callback_other:
  "cb tm \<noteq> RevealTick \<Longrightarrow> currentStage s = letter \<Longrightarrow>
     reveal_view (run_callback tm s) = reveal_view s"
  by (cases "cb tm")
    (auto simp add: run_callback_def app_defs Let_def reveal_view_def
      split: option.splits prod.splits)

lemma view_fire_other:
  assumes "cb tm \<noteq> RevealTick" and "currentStage s = letter"
  shows "reveal_view (fire tm s) = reveal_view s"
proof (cases "tm \<in> set (timers s)")
  case False
  then show ?thesis by (simp add: fire_def)
next
  case True
  let ?ts = "case interval tm of
               None \<Rightarrow> remove1 tm (timers s)
             | Some p \<Rightarrow> map (\<lambda>x. if x = tm then x\<lparr>due := due x + p\<rparr> else x) (timers s)"
  have "filter (\<lambda>tm. cb tm = RevealTick) ?ts = filter (\<lambda>tm. cb tm = RevealTick) (timers s)"
    using assms(1)
    by (cases "interval tm") (simp_all add: filter_remove1_other filter_rearm_other)
  then have "reveal_view (s\<lparr>timers := ?ts\<rparr>) = reveal_view s"
    by (simp add: reveal_view_def)
  moreover have "reveal_view (run_callback tm (s\<lparr>timers := ?ts\<rparr>)) = reveal_view (s\<lparr>timers := ?ts\<rparr>)"
    using assms by (intro view_run_callback_other) simp_all
  ultimately show ?thesis
    using True by (simp add: fire_def)
qed

lemma view_fire_all_other:
  assumes "\<forall>tm \<in> set tms. cb tm \<noteq> RevealTick" and "currentStage s = letter"
  shows "reveal_view (foldl (\<lambda>s' tm. fire tm s') s tms) = reveal_view s"
  using assms
proof (induction tms arbitrary: s)
  case Nil
  show ?case by simp
next
  case (Cons tm tms)
  have one: "reveal_view (fire tm s) = reveal_view s"
    using Cons.prems by (intro view_fire_other) simp_all
  then have "currentStage (fire tm s) = letter"
    using Cons.prems(2) by (simp add: reveal_view_def)
  then have "reveal_view (foldl (\<lambda>s' tm. fire tm s') (fire tm s) tms) = reveal_view (fire tm s)"
    using Cons.prems(1) by (intro Cons.IH) simp_all
  with one show ?case by simp
qed

lemma view_fire_reveal:
  assumes "reveal_view s = (letter, Some v, [r])"
    and "cb r = RevealTick" and "interval r = Some p"
  shows "reveal_view (fire r s) =
           (letter, Some (if v < length letterParagraphs then v + 1 else v),
            if v < length letterParagraphs then [r\<lparr>due := due r + p\<rparr>] else [])"
proof -
  have f: "filter (\<lambda>tm. cb tm = RevealTick) (timers s) = [r]"
    and st: "currentStage s = letter"
    and vis: "map_option visibleParagraphs (loveLetter s) = Some v"
    using assms(1) by (simp_all add: reveal_view_def)
  have "r \<in> set (filter (\<lambda>tm. cb tm = RevealTick) (timers s))"
    unfolding f by simp
  then have mem: "r \<in> set (timers s)"
    by simp
  let ?ts = "map (\<lambda>x. if x = r then x\<lparr>due := due x + p\<rparr> else x) (timers s)"
  have "filter (\<lambda>tm. cb tm = RevealTick) ?ts =
        map (\<lambda>x. if x = r then x\<lparr>due := due x + p\<rparr> else x) (filter (\<lambda>tm. cb tm = RevealTick) (timers s))"
    by (rule filter_rearm) simp
  then have f': "filter (\<lambda>tm. cb tm = RevealTick) ?ts = [r\<lparr>due := due r + p\<rparr>]"
    using f by simp
  obtain l where l: "loveLetter s = Some l" "visibleParagraphs l = v"
    using vis by auto
  have "fire r s = revealTick (tid r) (s\<lparr>timers := ?ts\<rparr>)"
    using mem assms(2,3) by (simp add: fire_def run_callback_def)
  moreover have "filter (\<lambda>tm. cb tm = RevealTick) (filter (\<lambda>tm. tid tm \<noteq> tid r) ?ts) = []"
  proof -
    have "filter (\<lambda>tm. cb tm = RevealTick) (filter (\<lambda>tm. tid tm \<noteq> tid r) ?ts) =
          filter (\<lambda>tm. tid tm \<noteq> tid r) (filter (\<lambda>tm. cb tm = RevealTick) ?ts)"
      by (simp add: conj_commute)
    then show ?thesis using f' by simp
  qed
  ultimately show ?thesis
    using l st f' by (simp add: revealTick_def reveal_view_def updLetter_def clearTimer_def)
qed

lemma length_letterParagraphs: "length letterParagraphs = 10"
  by (simp add: letterParagraphs_def)

lemma now_fire_all: "now (foldl (\<lambda>s' tm. fire tm s') s tms) = now s"
proof (induction tms arbitrary: s)
  case Nil
  show ?case by simp
next
  case (Cons tm tms)
  have "now (run_callback tm s') = now s'" for s'
    by (cases "cb tm")
      (auto simp add: run_callback_def app_defs Let_def split: option.splits prod.splits
        AppStage.splits)
  then have "now (fire tm s) = now s"
    by (simp add: fire_def)
  then show ?case
    using Cons.IH [of "fire tm s"] by simp
qed

lemma now_tick: "now (tick s) = now s + 1"
  by (simp add: tick_def now_fire_all)

lemma reveal_tick_quiet:
  assumes "reveal_view s = (letter, v, F)" and "\<forall>tm \<in> set F. now s + 1 < due tm"
  shows "reveal_view (tick s) = (letter, v, F)"
proof -
  let ?L = "filter (\<lambda>tm. due tm \<le> now s + 1) (timers s)"
  have F: "F = filter (\<lambda>tm. cb tm = RevealTick) (timers s)"
    using assms(1) by (simp add: reveal_view_def)
  have "\<forall>tm \<in> set ?L. cb tm \<noteq> RevealTick"
    using assms(2) unfolding F by auto
  moreover have "currentStage (s\<lparr>now := now s + 1\<rparr>) = letter"
    using assms(1) by (simp add: reveal_view_def)
  ultimately have "reveal_view (foldl (\<lambda>s' tm. fire tm s') (s\<lparr>now := now s + 1\<rparr>) ?L) =
      reveal_view (s\<lparr>now := now s + 1\<rparr>)"
    by (rule view_fire_all_other)
  then show ?thesis
    using assms(1) by (simp add: tick_def reveal_view_def)
qed

lemma reveal_tick_due:
  assumes "reveal_view s = (letter, Some v, [r])" and "due r \<le> now s + 1"
    and "cb r = RevealTick" and "interval r = Some p"
  shows "reveal_view (tick s) =
           (letter, Some (if v < length letterParagraphs then v + 1 else v),
            if v < length letterParagraphs then [r\<lparr>due := due r + p\<rparr>] else [])"
proof -
  let ?P = "\<lambda>tm. cb tm = RevealTick"
  let ?L = "filter (\<lambda>tm. due tm \<le> now s + 1) (timers s)"
  let ?f = "\<lambda>s' tm. fire tm s'"
  let ?s = "s\<lparr>now := now s + 1\<rparr>"
  have F: "filter ?P (timers s) = [r]"
    using assms(1) by (simp add: reveal_view_def)
  have "filter ?P ?L = filter (\<lambda>tm. due tm \<le> now s + 1) (filter ?P (timers s))"
    by (simp add: conj_commute)
  then have "filter ?P ?L = [r]"
    using F assms(2) by simp
  then obtain us vs where L: "?L = us @ r # vs"
    and us: "\<forall>u \<in> set us. \<not> ?P u" and vs: "filter ?P vs = []"
    unfolding filter_eq_Cons_iff by auto
  have vs': "\<forall>u \<in> set vs. cb u \<noteq> RevealTick"
    using vs by (simp add: filter_empty_conv)
  have v0: "reveal_view ?s = (letter, Some v, [r])"
    using assms(1) by (simp add: reveal_view_def)
  then have "currentStage ?s = letter"
    by (simp add: reveal_view_def)
  with us have "reveal_view (foldl ?f ?s us) = reveal_view ?s"
    by (intro view_fire_all_other) simp_all
  with v0 have v1: "reveal_view (foldl ?f ?s us) = (letter, Some v, [r])"
    by simp
  let ?after = "(letter, Some (if v < length letterParagraphs then v + 1 else v),
            if v < length letterParagraphs then [r\<lparr>due := due r + p\<rparr>] else [])"
  have v2: "reveal_view (fire r (foldl ?f ?s us)) = ?after"
    using v1 assms(3,4) by (rule view_fire_reveal)
  then have "currentStage (fire r (foldl ?f ?s us)) = letter"
    by (simp add: reveal_view_def)
  with vs' have "reveal_view (foldl ?f (fire r (foldl ?f ?s us)) vs) =
      reveal_view (fire r (foldl ?f ?s us))"
    by (intro view_fire_all_other) simp_all
  with v2 have "reveal_view (foldl ?f ?s (us @ r # vs)) = ?after"
    by simp
  then show ?thesis
    unfolding tick_def L .
qed

lemma period_bounds:
  fixes t :: nat
  shows "1200 * (t div 1200) \<le> t" and "t < 1200 * (t div 1200 + 1)"
proof -
  show "1200 * (t div 1200) \<le> t"
    by (rule times_div_less_eq_dividend)
  have "t < 1200 + 1200 * (t div 1200)"
    by (rule dividend_less_times_div) simp
  then show "t < 1200 * (t div 1200 + 1)"
    by simp
qed

lemma periods_before:
  fixes t :: nat
  shows "t < 13200 \<Longrightarrow> t div 1200 \<le> 10"
proof -
  assume "t < 13200"
  then have "t < 11 * 1200" by simp
  then have "t div 1200 < 11" by (rule less_mult_imp_div_less)
  then show ?thesis by simp
qed

lemma same_period:
  fixes t k :: nat
  shows "1200 * k \<le> t \<Longrightarrow> t + 1 < 1200 * (k + 1) \<Longrightarrow> (t + 1) div 1200 = k"
  by (rule div_nat_eqI) simp_all

lemma reveal_at_iff:
  "reveal_at h n0 t s \<longleftrightarrow>
     now s = n0 + t \<and>
     reveal_view s =
       (letter, Some (min (t div 1200) 10),
        if t < 13200
        then [\<lparr>tid = h, due = n0 + 1200 * (t div 1200 + 1), interval = Some 1200,
               cb = RevealTick\<rparr>]
        else [])"
  by (simp add: reveal_at_def length_letterParagraphs)

lemma reveal_at_tick:
  assumes "reveal_at h n0 t s"
  shows "reveal_at h n0 (t + 1) (tick s)"
proof -
  define k where "k = t div 1200"
  have now: "now s = n0 + t"
    using assms unfolding reveal_at_iff by simp
  have now': "now (tick s) = n0 + (t + 1)"
    using now by (simp add: now_tick)
  have kt: "1200 * k \<le> t" "t < 1200 * (k + 1)"
    unfolding k_def by (rule period_bounds)+
  show ?thesis
  proof (cases "t < 13200")
    case False
    then have late: "\<not> t + 1 < 13200" by simp
    have "10 \<le> k"
    proof (rule ccontr)
      assume "\<not> 10 \<le> k"
      then have "k + 1 \<le> 10" by simp
      then have "1200 * (k + 1) \<le> 1200 * 10" by (rule mult_le_mono2)
      with kt(2) False show False by simp
    qed
    moreover have "k \<le> (t + 1) div 1200"
      unfolding k_def by (rule div_le_mono) simp
    ultimately have m: "min k 10 = 10" "min ((t + 1) div 1200) 10 = 10"
      by simp_all
    have view: "reveal_view s = (letter, Some 10, [])"
      using assms False m(1) unfolding reveal_at_iff k_def by simp
    then have "reveal_view (tick s) = (letter, Some 10, [])"
      by (rule reveal_tick_quiet) simp
    then show ?thesis
      unfolding reveal_at_iff using late now' m(2) by simp
  next
    case True
    then have k10: "k \<le> 10"
      unfolding k_def by (rule periods_before)
    then have mk: "min k 10 = k" by simp
    define r where "r = \<lparr>tid = h, due = n0 + 1200 * (k + 1), interval = Some 1200, cb = RevealTick\<rparr>"
    have view: "reveal_view s = (letter, Some k, [r])"
      using assms True mk unfolding reveal_at_iff k_def r_def by simp
    show ?thesis
    proof (cases "t + 1 = 1200 * (k + 1)")
      case False
      then have lt: "t + 1 < 1200 * (k + 1)"
        using kt(2) by simp
      have div: "(t + 1) div 1200 = k"
        using kt(1) lt by (rule same_period)
      have "1200 * (k + 1) \<le> 1200 * 11"
        using k10 by (intro mult_le_mono2) simp
      with lt have early: "t + 1 < 13200" by simp
      have "\<forall>tm \<in> set [r]. now s + 1 < due tm"
        using lt now by (simp add: r_def)
      with view have "reveal_view (tick s) = (letter, Some k, [r])"
        by (rule reveal_tick_quiet)
      then show ?thesis
        unfolding reveal_at_iff div using now' early mk by (simp add: r_def)
    next
      case True
      then have "t + 1 = (k + 1) * 1200" by simp
      then have div: "(t + 1) div 1200 = k + 1"
        by (simp only: div_mult_self_is_m zero_less_numeral)
      have "due r \<le> now s + 1" "cb r = RevealTick" "interval r = Some 1200"
        using True now by (simp_all add: r_def)
      with view have after: "reveal_view (tick s) =
           (letter, Some (if k < length letterParagraphs then k + 1 else k),
            if k < length letterParagraphs then [r\<lparr>due := due r + 1200\<rparr>] else [])"
        by (rule reveal_tick_due)
      show ?thesis
      proof (cases "k < 10")
        case True
        then have "k + 1 \<le> 10" by simp
        then have "1200 * (k + 1) \<le> 1200 * 10" by (rule mult_le_mono2)
        then have early: "t + 1 < 13200"
          using \<open>t + 1 = 1200 * (k + 1)\<close> by simp
        have m: "min (k + 1) 10 = k + 1"
          using True by simp
        have "reveal_view (tick s) = (letter, Some (k + 1), [r\<lparr>due := due r + 1200\<rparr>])"
          using after True by (simp add: length_letterParagraphs)
        then show ?thesis
          unfolding reveal_at_iff div using now' early m by (simp add: r_def)
      next
        case False
        then have "k = 10" using k10 by simp
        then have late: "\<not> t + 1 < 13200"
          using \<open>t + 1 = 1200 * (k + 1)\<close> by simp
        have m: "min (k + 1) 10 = 10"
          using \<open>k = 10\<close> by simp
        have "reveal_view (tick s) = (letter, Some 10, [])"
          using after \<open>k = 10\<close> by (simp add: length_letterParagraphs)
        then show ?thesis
          unfolding reveal_at_iff div using now' late m by simp
      qed
    qed
  qed
qed

lemma view_primitives [simp]:
  "c \<noteq> RevealTick \<Longrightarrow> reveal_view (setTimeout_at d c s) = reveal_view s"
  "reveal_view (updLock f s) = reveal_view s"
  "reveal_view (updProposal k s) = reveal_view s"
  "reveal_view (setStatus x s) = reveal_view s"
  "reveal_view (setLockIcon x s) = reveal_view s"
  "reveal_view (setIsListening b s) = reveal_view s"
  "reveal_view (setFallbackValue x s) = reveal_view s"
  "reveal_view (s\<lparr>recognition := c'\<rparr>) = reveal_view s"
  "reveal_view (s\<lparr>audio := a\<rparr>) = reveal_view s"
  by (simp_all add: primitive_defs reveal_view_def)

lemma view_updLetter:
  "(\<And>l. visibleParagraphs (g l) = visibleParagraphs l) \<Longrightarrow>
     reveal_view (updLetter g s) = reveal_view s"
  by (cases "loveLetter s") (simp_all add: updLetter_def reveal_view_def)

lemma view_playMelody [simp]: "reveal_view (playMelody p h t s) = reveal_view s"
  by (simp add: playMelody_def Let_def)

lemma view_startMusic [simp]: "reveal_view (startMusic p s) = reveal_view s"
  by (simp add: startMusic_def split: option.splits)

lemma view_stopMusic [simp]: "reveal_view (stopMusic s) = reveal_view s"
  unfolding stopMusic_def by (rule view_updLetter) (simp split: option.splits)

lemma view_setIsPlaying [simp]: "reveal_view (setIsPlaying p s) = reveal_view s"
proof -
  have "reveal_view (updLetter (\<lambda>l. l\<lparr>isPlaying := b\<rparr>) s) = reveal_view s" for b
    by (rule view_updLetter) simp
  then show ?thesis
    by (simp add: setIsPlaying_def isPlaying_effect_def isPlaying_cleanup_def
        split: option.splits)
qed

lemma view_handlers [simp]:
  "reveal_view (handleToggle s) = reveal_view s"
  "reveal_view (LockScreen_handleUnlock s) = reveal_view s"
  "reveal_view (onResult t s) = reveal_view s"
  "reveal_view (onError s) = reveal_view s"
  "reveal_view (onStart s) = reveal_view s"
  "reveal_view (handleLockClick s) = reveal_view s"
  "reveal_view (handleFallbackSubmit s) = reveal_view s"
  "reveal_view (ProposalScreen_handleRevealProposal s) = reveal_view s"
  "reveal_view (handleYes s) = reveal_view s"
  "reveal_view (handleNo s) = reveal_view s"
  by (simp_all add: handleToggle_def LockScreen_handleUnlock_def onResult_def onError_def
      onStart_def handleLockClick_def startListening_def handleFallbackSubmit_def
      ProposalScreen_handleRevealProposal_def handleYes_def handleNo_def relocate_def
      Math_random_def Let_def reveal_view_def [of "s\<lparr>randomCalls := n\<rparr>" for n]
      reveal_view_def [of s] split: option.splits prod.splits)

lemma now_primitives [simp]:
  "now (setTimeout_at d c s) = now s"
  "now (updLock f s) = now s"
  "now (updLetter g s) = now s"
  "now (updProposal k s) = now s"
  "now (setStatus x s) = now s"
  "now (setLockIcon x s) = now s"
  "now (setIsListening b s) = now s"
  "now (setFallbackValue x s) = now s"
  by (simp_all add: primitive_defs)

lemma now_music [simp]:
  "now (playMelody p h t s) = now s"
  "now (startMusic p s) = now s"
  "now (stopMusic s) = now s"
  "now (setIsPlaying p s) = now s"
  "now (handleToggle s) = now s"
  by (simp_all add: playMelody_def startMusic_def stopMusic_def setIsPlaying_def
      isPlaying_effect_def isPlaying_cleanup_def handleToggle_def Let_def split: option.splits)

lemma now_handlers [simp]:
  "now (LockScreen_handleUnlock s) = now s"
  "now (onResult t s) = now s"
  "now (onError s) = now s"
  "now (onStart s) = now s"
  "now (handleLockClick s) = now s"
  "now (handleFallbackSubmit s) = now s"
  "now (ProposalScreen_handleRevealProposal s) = now s"
  "now (handleYes s) = now s"
  "now (handleNo s) = now s"
  by (simp_all add: LockScreen_handleUnlock_def onResult_def onError_def
      onStart_def handleLockClick_def startListening_def handleFallbackSubmit_def
      ProposalScreen_handleRevealProposal_def handleYes_def handleNo_def relocate_def
      Math_random_def Let_def split: option.splits prod.splits)

lemma reveal_step_other:
  assumes "e \<noteq> Tick" and "e \<noteq> ContinueClick" and "currentStage s = letter"
  shows "reveal_view (step e s) = reveal_view s \<and> now (step e s) = now s"
  using assms by (cases e) (simp_all add: step_def split: option.splits)

lemma reveal_at_step:
  assumes "reveal_at h n0 t s" and "e \<noteq> ContinueClick"
  shows "reveal_at h n0 (t + elapsed [e]) (step e s)"
proof (cases "e = Tick")
  case True
  then show ?thesis
    using reveal_at_tick [OF assms(1)] by (simp add: elapsed_def step_def)
next
  case False
  have "currentStage s = letter"
    using assms(1) by (simp add: reveal_at_def reveal_view_def)
  with False assms(2) have "reveal_view (step e s) = reveal_view s \<and> now (step e s) = now s"
    by (rule reveal_step_other)
  then show ?thesis
    using assms(1) False by (simp add: reveal_at_def elapsed_def)
qed

lemma elapsed_Cons: "elapsed (e # es) = elapsed [e] + elapsed es"
  by (simp add: elapsed_def)

lemma reveal_at_run:
  assumes "reveal_at h n0 t s" and "ContinueClick \<notin> set es"
  shows "reveal_at h n0 (t + elapsed es) (run es s)"
  using assms
proof (induction es arbitrary: s t)
  case Nil
  then show ?case by (simp add: elapsed_def)
next
  case (Cons e es)
  have "reveal_at h n0 (t + elapsed [e]) (step e s)"
    using Cons.prems by (intro reveal_at_step) auto
  then have "reveal_at h n0 (t + elapsed [e] + elapsed es) (run es (step e s))"
    using Cons.prems by (intro Cons.IH) auto
  then show ?case
    by (simp add: elapsed_Cons [of e es] add.assoc)
qed

lemma reveal_at_mount:
  assumes "currentStage s \<noteq> letter" and "\<forall>tm \<in> set (timers s). cb tm \<noteq> RevealTick"
  shows "\<exists>h. reveal_at h (now s) 0 (setCurrentStage letter s)"
proof -
  have none: "filter (\<lambda>tm. cb tm = RevealTick) (timers s) = []"
    using assms(2) by (simp add: filter_empty_conv)
  then have none': "filter (\<lambda>tm. cb tm = RevealTick) (filter P (timers s)) = []" for P
    by (simp add: filter_empty_conv)
  show ?thesis
    using assms(1) none none'
    by (cases "currentStage s")
      (auto simp add: reveal_at_iff reveal_view_def app_defs Let_def
        split: option.splits prod.splits)
qed

lemma reveal_at_observed:
  assumes "reveal_at h n0 t s"
  shows "revealProgress s = min (t div 1200) (length letterParagraphs)"
    and "loveLetter s \<noteq> None"
    and "reveal_pending s \<longleftrightarrow> t < 1200 * (length letterParagraphs + 1)"
proof -
  have v: "map_option visibleParagraphs (loveLetter s) = Some (min (t div 1200) (length letterParagraphs))"
    and f: "filter (\<lambda>tm. cb tm = RevealTick) (timers s) =
        (if t < 1200 * (length letterParagraphs + 1)
         then [\<lparr>tid = h, due = n0 + 1200 * (t div 1200 + 1), interval = Some 1200,
                cb = RevealTick\<rparr>]
         else [])"
    using assms by (simp_all add: reveal_at_def reveal_view_def)
  from v show "revealProgress s = min (t div 1200) (length letterParagraphs)"
    by (auto simp add: revealProgress_def)
  from v show "loveLetter s \<noteq> None"
    by auto
  have "reveal_pending s \<longleftrightarrow> filter (\<lambda>tm. cb tm = RevealTick) (timers s) \<noteq> []"
    by (simp add: reveal_pending_def list_ex_iff filter_empty_conv)
  then show "reveal_pending s \<longleftrightarrow> t < 1200 * (length letterParagraphs + 1)"
    unfolding f by simp
qed

text \<open>
  Claim C6. From the moment the Letter stage is entered, and for every sequence of
  events in it (the clock, the music toggle, events of the other components) that does
  not leave it: the reveal progress starts at 0; after \<open>t\<close> milliseconds it is the number
  of full periods of 1200 milliseconds in \<open>t\<close>, capped at the number of paragraphs, so it
  grows by one per period, never decreases and never exceeds that number; it is the
  full number exactly from paragraphs times 1200 milliseconds on; and the interval is
  still set exactly until it has fired once more, at which firing it clears itself.
\<close>
theorem reveal_progress_follows_the_clock:
  assumes "currentStage s \<noteq> letter" and "\<forall>tm \<in> set (timers s). cb tm \<noteq> RevealTick"
    and "ContinueClick \<notin> set es" and "ContinueClick \<notin> set es'"
  shows
    "revealProgress (setCurrentStage letter s) = 0 \<and>
     loveLetter (run es (setCurrentStage letter s)) \<noteq> None \<and>
     revealProgress (run es (setCurrentStage letter s)) =
       min (elapsed es div 1200) (length letterParagraphs) \<and>
     revealProgress (run es (setCurrentStage letter s)) \<le>
       revealProgress (run (es @ es') (setCurrentStage letter s)) \<and>
     revealProgress (run es (setCurrentStage letter s)) \<le> length letterParagraphs \<and>
     (revealProgress (run es (setCurrentStage letter s)) = length letterParagraphs \<longleftrightarrow>
        length letterParagraphs * 1200 \<le> elapsed es) \<and>
     (reveal_pending (run es (setCurrentStage letter s)) \<longleftrightarrow>
        elapsed es < 1200 * (length letterParagraphs + 1))"
proof -
  let ?s0 = "setCurrentStage letter s"
  obtain h where s0: "reveal_at h (now s) 0 ?s0"
    using reveal_at_mount [OF assms(1,2)] by blast
  have a: "reveal_at h (now s) (0 + elapsed es) (run es ?s0)"
    using s0 assms(3) by (rule reveal_at_run)
  have "ContinueClick \<notin> set (es @ es')"
    using assms(3,4) by simp
  with s0 have b: "reveal_at h (now s) (0 + elapsed (es @ es')) (run (es @ es') ?s0)"
    by (rule reveal_at_run)
  have le: "elapsed es \<le> elapsed (es @ es')"
    by (simp add: elapsed_def)
  have p0: "revealProgress ?s0 = 0"
    using reveal_at_observed(1) [OF s0] by simp
  have pa: "revealProgress (run es ?s0) = min (elapsed es div 1200) (length letterParagraphs)"
    using reveal_at_observed(1) [OF a] by simp
  have pb: "revealProgress (run (es @ es') ?s0) =
      min (elapsed (es @ es') div 1200) (length letterParagraphs)"
    using reveal_at_observed(1) [OF b] by simp
  have mono: "elapsed es div 1200 \<le> elapsed (es @ es') div 1200"
    using le by (rule div_le_mono)
  have full: "min (elapsed es div 1200) (length letterParagraphs) = length letterParagraphs \<longleftrightarrow>
      length letterParagraphs * 1200 \<le> elapsed es"
  proof -
    have "length letterParagraphs \<le> elapsed es div 1200 \<longleftrightarrow>
        length letterParagraphs * 1200 \<le> elapsed es"
      by (rule less_eq_div_iff_mult_less_eq) simp
    then show ?thesis by auto
  qed
  show ?thesis
    using p0 pa pb mono full reveal_at_observed(2,3) [OF a]
    by (simp add: min_le_iff_disj)
qed

lemma elapsed_wait: "elapsed (wait n) = n" "elapsed (wait n @ [ToggleMusic, Tick]) = n + 1"
  by (simp_all add: elapsed_def wait_def)

lemma no_continue_in_wait:
  "ContinueClick \<notin> set (wait n)" "ContinueClick \<notin> set (wait n @ [ToggleMusic, Tick])"
  by (simp_all add: wait_def)

theorem reveal_progress_follows_the_clock_witness:
  "currentStage (retrying_with hello) \<noteq> letter \<and>
   map cb (timers (retrying_with hello)) = [ResetStatus] \<and>
   revealProgress (run (wait 11999) (setCurrentStage letter (retrying_with hello))) = 9 \<and>
   revealProgress (run (wait 11999 @ [ToggleMusic, Tick])
     (setCurrentStage letter (retrying_with hello))) = 10 \<and>
   reveal_pending (run (wait 13199) (setCurrentStage letter (retrying_with hello))) \<and>
   \<not> reveal_pending (run (wait 13200) (setCurrentStage letter (retrying_with hello)))"
proof -
  have h: "currentStage (retrying_with hello) \<noteq> letter"
    "\<forall>tm \<in> set (timers (retrying_with hello)). cb tm \<noteq> RevealTick"
    and t: "map cb (timers (retrying_with hello)) = [ResetStatus]"
    by (simp_all add: retrying_state)
  have c: "ContinueClick \<notin> set []"
    by simp
  note w = no_continue_in_wait
  show ?thesis
    using h(1) t
      reveal_progress_follows_the_clock [OF h w(1) c, of 11999]
      reveal_progress_follows_the_clock [OF h w(2) c, of 11999]
      reveal_progress_follows_the_clock [OF h w(1) c, of 13199]
      reveal_progress_follows_the_clock [OF h w(1) c, of 13200]
    by (simp add: elapsed_wait length_letterParagraphs)
qed

section \<open>Running the clock forward\<close>

lemma run_append: "run (es @ es') s = run es' (run es s)"
  by (induction es arbitrary: s) simp_all

lemma run_wait: "run (wait n) s = elapse n s"
proof -
  have "run (replicate n Tick @ es) s = run es (elapse n s)" for es
  proof (induction n arbitrary: es)
    case 0
    show ?case by simp
  next
    case (Suc n)
    have "replicate (Suc n) Tick @ es = replicate n Tick @ (Tick # es)"
      by (simp add: replicate_app_Cons_same)
    then show ?case
      using Suc [of "Tick # es"] by (simp add: step_def)
  qed
  from this [of "[]"] show ?thesis
    by (simp add: wait_def)
qed

lemma fold_min_le: "fold min xs (a::nat) \<le> a"
proof (induction xs arbitrary: a)
  case Nil
  show ?case by simp
next
  case (Cons x xs)
  have "fold min xs (min x a) \<le> min x a" by (rule Cons.IH)
  then show ?case by simp
qed

lemma fold_min_lower: "x \<in> set xs \<Longrightarrow> fold min xs (a::nat) \<le> x"
proof (induction xs arbitrary: a)
  case Nil
  then show ?case by simp
next
  case (Cons y ys)
  show ?case
  proof (cases "x = y")
    case True
    have "fold min ys (min y a) \<le> min y a" by (rule fold_min_le)
    with True show ?thesis by simp
  next
    case False
    with Cons show ?thesis by simp
  qed
qed

lemma fold_min_greater: "n < a \<Longrightarrow> \<forall>x \<in> set xs. n < x \<Longrightarrow> n < fold min xs (a::nat)"
  by (induction xs arbitrary: a) simp_all

lemma fast_forward_elapse:
  "fast_forward fuel T s = Some s' \<Longrightarrow> s' = elapse (T - now s) s"
proof (induction fuel arbitrary: s)
  case 0
  then show ?case by simp
next
  case (Suc fuel)
  from Suc.prems have le: "now s \<le> T" and fut': "list_all (\<lambda>tm. now s < due tm) (timers s)"
    by (auto split: if_splits)
  from fut' have fut: "\<forall>tm \<in> set (timers s). now s < due tm"
    by (simp add: list_all_iff)
  show ?case
  proof (cases "list_all (\<lambda>tm. T < due tm) (timers s)")
    case True
    with Suc.prems le fut' have s': "s' = s\<lparr>now := T\<rparr>"
      by simp
    have "elapse (T - now s) s = s\<lparr>now := now s + (T - now s)\<rparr>"
      using True le by (intro elapse_idle) (simp add: list_all_iff)
    with s' le show ?thesis by simp
  next
    case False
    define D where "D = fold min (map due (timers s)) T"
    from False obtain tm where tm: "tm \<in> set (timers s)" "due tm \<le> T"
      by (auto simp: list_all_iff not_less)
    have "now s < D"
    proof (cases "now s < T")
      case True
      then show ?thesis
        unfolding D_def using fut by (intro fold_min_greater) simp_all
    next
      case False
      with tm fut le show ?thesis by force
    qed
    have "D \<le> T"
      unfolding D_def by (rule fold_min_le)
    have low: "\<forall>tm \<in> set (timers s). D \<le> due tm"
      unfolding D_def by (auto intro: fold_min_lower)
    define s1 where "s1 = tick (s\<lparr>now := D - 1\<rparr>)"
    have ff: "fast_forward fuel T s1 = Some s'"
      using Suc.prems False le fut' by (simp add: s1_def D_def)
    have idle: "elapse (D - 1 - now s) s = s\<lparr>now := now s + (D - 1 - now s)\<rparr>"
      using low \<open>now s < D\<close> by (intro elapse_idle) force
    have "elapse (Suc (D - 1 - now s)) s = s1"
      using idle \<open>now s < D\<close> by (simp add: s1_def)
    then have s1: "elapse (D - now s) s = s1"
      using \<open>now s < D\<close> by (simp add: Suc_diff_Suc)
    have "now s1 = D"
      using \<open>now s < D\<close> by (simp add: s1_def now_tick)
    from Suc.IH [OF ff] have "s' = elapse (T - D) s1"
      using \<open>now s1 = D\<close> by simp
    also have "\<dots> = elapse ((D - now s) + (T - D)) s"
      using s1 by (simp only: elapse_add)
    also have "(D - now s) + (T - D) = T - now s"
      using \<open>now s < D\<close> \<open>D \<le> T\<close> by simp
    finally show ?thesis .
  qed
qed

section \<open>Sessions, step by step\<close>

lemma fast_forward_numeral:
  "fast_forward (numeral k) T s =
     (if T < now s \<or> \<not> list_all (\<lambda>tm. now s < due tm) (timers s) then None
      else if list_all (\<lambda>tm. T < due tm) (timers s) then Some (s\<lparr>now := T\<rparr>)
      else fast_forward (pred_numeral k) T
             (tick (s\<lparr>now := fold min (map due (timers s)) T - 1\<rparr>)))"
  by (simp add: numeral_eq_Suc)

lemma elapse_by_fast_forward:
  "fast_forward 40 (now s + n) s \<noteq> None \<Longrightarrow>
     elapse n s = the (fast_forward 40 (now s + n) s)"
proof -
  assume "fast_forward 40 (now s + n) s \<noteq> None"
  then obtain s' where s': "fast_forward 40 (now s + n) s = Some s'"
    by blast
  then have "s' = elapse (now s + n - now s) s"
    by (rule fast_forward_elapse)
  with s' show ?thesis by simp
qed

lemma pass_clock: "snd (playMelody_pass 0 melody t) = t + 13.2"
  by (simp add: melody_def add.commute)

lemma pass_length: "length (fst (playMelody_pass 0 melody t)) = 17"
  by (simp add: melody_def)

lemmas trace_simps =
  run_append run_wait step_def app_defs tick_def fire_def run_callback_def initial_state
  a_browser_def matches_radha_latin Let_def elapse_by_fast_forward fast_forward_numeral
  rearm_delay_value currentTime_def length_letterParagraphs

lemmas audio_simps =
  armed_passes_def is_rearm_def scheduled_notes_def musicPlaying_def pass_clock pass_length

lemma wrong_word_without_hello: "\<not> includes_str status_wrong_word hello"
  by (simp add: status_wrong_word_def hello_def)

text \<open>
  Claim C4 as it was stated fails in two ways. A typed "hello" is answered by a line that
  does not hold "hello", and the prompt is back after 2 seconds, not 3. And a misheard
  "hello" that follows a recognition error by 1.5 seconds is shown for half a second
  only: the reset that the error set 2 seconds before is not cleared.
\<close>

theorem typed_mismatch_counterexample:
  "\<not> matches hello \<and>
   shown (run typed_hello (initial a_browser)) = Some status_wrong_word \<and>
   \<not> includes_str status_wrong_word hello \<and>
   shown (run (typed_hello @ wait 1999) (initial a_browser)) = Some status_wrong_word \<and>
   shown (run (typed_hello @ wait 2000) (initial a_browser)) = Some status_prompt \<and>
   shown (run hasty_retry (initial a_browser)) =
     Some (status_heard_prefix @ hello @ status_heard_suffix) \<and>
   shown (run (hasty_retry @ wait 499) (initial a_browser)) =
     Some (status_heard_prefix @ hello @ status_heard_suffix) \<and>
   shown (run (hasty_retry @ wait 500) (initial a_browser)) = Some status_prompt"
  using wrong_word_without_hello
  by (simp add: typed_hello_def hasty_retry_def trace_simps not_matches_hello shown_def)

text \<open>
  Claim C2 fails on the code. Once the music has started one re-arm timer is set. A
  second call of \<^verbatim>\<open>startMusic\<close>, made directly or by switching the music off and on
  again, sets a second one: two repeating passes are armed. And the re-arm does not look
  at the state of the moment: with the music switched off, the timer that was set
  13.2 seconds before still fires, creates the 17 notes of another pass and arms the
  next one. The \<^verbatim>\<open>isPlaying\<close> that the timer tests is the one its closure captured,
  which is true, and \<^verbatim>\<open>stopMusic\<close> clears nothing.
\<close>

theorem two_passes_armed_after_restart:
  "length (armed_passes (run music_started (initial a_browser))) = 1 \<and>
   length (armed_passes (startMusic True (run music_started (initial a_browser)))) = 2 \<and>
   musicPlaying (run (music_started @ [ToggleMusic, ToggleMusic]) (initial a_browser)) \<and>
   length (armed_passes (run (music_started @ [ToggleMusic, ToggleMusic]) (initial a_browser))) = 2 \<and>
   \<not> musicPlaying (run (music_started @ [ToggleMusic] @ wait 13199) (initial a_browser)) \<and>
   scheduled_notes (run (music_started @ [ToggleMusic] @ wait 13199) (initial a_browser)) = 17 \<and>
   \<not> musicPlaying (run (music_started @ [ToggleMusic] @ wait 13200) (initial a_browser)) \<and>
   scheduled_notes (run (music_started @ [ToggleMusic] @ wait 13200) (initial a_browser)) = 34 \<and>
   length (armed_passes (run (music_started @ [ToggleMusic] @ wait 13200) (initial a_browser))) = 1"
  by (simp add: music_started_def trace_simps audio_simps)

text \<open>
  Claim C3 fails on the code. When the Letter stage is left, 13.5 seconds into the
  session, the reveal interval and the music timer are cleared and the audio context is
  closed, but the re-arm timer that the stage's music set for 15.2 seconds is still
  there. It fires in the Proposal stage: at 15.2 seconds the notes of another pass have
  been created and the next re-arm is set for 28.4 seconds.
\<close>

theorem melody_timer_fires_after_the_letter:
  "currentStage (run letter_read (initial a_browser)) = proposal \<and>
   loveLetter (run letter_read (initial a_browser)) = None \<and>
   \<not> reveal_pending (run letter_read (initial a_browser)) \<and>
   now (run letter_read (initial a_browser)) = 13500 \<and>
   armed_passes (run letter_read (initial a_browser)) =
     [\<lparr>tid = 3, due = 15200, interval = None, cb = RearmMelody True 0 (137 / 10)\<rparr>] \<and>
   scheduled_notes (run letter_read (initial a_browser)) = 17 \<and>
   currentStage (run (letter_read @ wait 1700) (initial a_browser)) = proposal \<and>
   armed_passes (run (letter_read @ wait 1700) (initial a_browser)) =
     [\<lparr>tid = 5, due = 28400, interval = None, cb = RearmMelody True 0 (269 / 10)\<rparr>] \<and>
   scheduled_notes (run (letter_read @ wait 1700) (initial a_browser)) = 34"
  by (simp add: letter_read_def music_started_def trace_simps audio_simps reveal_pending_def)

text \<open>
  Claim C8 fails on the code. The lock screen clears neither its unlock timer nor its
  recogniser when it is unmounted. In \<open>reading_aloud\<close> the recogniser is still capturing
  when the Proposal stage is reached; a result that holds the name then sets the unlock
  timer once more, and 1.5 seconds later the stage is Letter again: a step from Proposal
  back to Letter.
\<close>

theorem late_result_moves_proposal_back_to_letter:
  "currentStage (run reading_aloud (initial a_browser)) = proposal \<and>
   currentStage
     (run (reading_aloud @ [SpeechResult radha_latin] @ wait 1499) (initial a_browser)) =
     proposal \<and>
   currentStage
     (run (reading_aloud @ [SpeechResult radha_latin] @ wait 1500) (initial a_browser)) =
     letter"
  by (simp add: reading_aloud_def trace_simps)


text \<open>
  Claim C7 fails on the code in its last part. In \<open>accepted_session\<close> the outcome is
  Accepted, and the recogniser that was started on the lock screen is still capturing.
  Its result, holding the name, sets the unlock timer; 1.5 seconds later the stage is
  Letter and the proposal screen is unmounted, its outcome lost; and when the letter has
  been revealed again and the next page is asked for, the outcome is Pending. The
  defect is that of claim C8.
\<close>

theorem accepted_outcome_lost_after_late_result:
  "currentStage (run accepted_session (initial a_browser)) = proposal \<and>
   map_option outcome (proposalScreen (run accepted_session (initial a_browser))) =
     Some Accepted \<and>
   currentStage
     (run (accepted_session @ [SpeechResult radha_latin] @ wait 1500) (initial a_browser)) =
     letter \<and>
   proposalScreen
     (run (accepted_session @ [SpeechResult radha_latin] @ wait 1500) (initial a_browser)) =
     None \<and>
   currentStage
     (run (accepted_session @ [SpeechResult radha_latin] @ wait 1500 @ wait 12000 @
           [ContinueClick]) (initial a_browser)) = proposal \<and>
   map_option outcome (proposalScreen
     (run (accepted_session @ [SpeechResult radha_latin] @ wait 1500 @ wait 12000 @
           [ContinueClick]) (initial a_browser))) = Some Pending"
  by (simp add: accepted_session_def reading_aloud_def trace_simps outcome_def)

section \<open>The engine schedules the melody\<close>

lemma letter_opened_state:
  "audio letter_opened =
     [\<lparr>ctx_state = ctx_running, resumedAt = 0, elapsedBefore = 0, oscillators = []\<rparr>]"
  "loveLetter letter_opened =
     Some \<lparr>visibleParagraphs = 0, isPlaying = False, musicTimer = 0, revealTimer = 1,
            music = \<lparr>audioContextRef = Some 0, oscillatorRef = None,
                      isSupported_music = True\<rparr>\<rparr>"
  "now letter_opened = 0"
  "map due (timers letter_opened) = [500, 1200]"
  by (simp_all add: letter_opened_def trace_simps)

text \<open>
  Claim C9. A pass of the engine, \<^verbatim>\<open>playMelody\<close> on an audio context, adds to the nodes
  of that context the fixed, ordered melody, scheduled against a clock that starts at
  the pass's start and advances by each note's duration. Every note has the envelope of
  \<open>enveloped\<close>: a linear rise, then an exponential decay in two stages. Under the notes
  0, 3, 6 and 9 a harmony sounds at 1.5 times the frequency and reduced volume; under
  the notes 0, 4 and 8 an octave sounds at twice the frequency, 0.1 later, at a volume
  reduced further and 0.8 of the duration. The pass sets the re-arm timer, 13200
  milliseconds on, whose pass starts where this one ends. \<^verbatim>\<open>startMusic\<close> on a running
  context is such a pass from the context's current time, and so is the firing of a
  re-arm timer from the clock it carries.
\<close>

theorem playMelody_schedules_the_specified_melody:
  assumes "h < length (audio s)"
  shows
    "length (audio (playMelody p h t s)) = length (audio s) \<and>
     oscillators (audio (playMelody p h t s) ! h) =
       oscillators (audio s ! h) @ concat (map (notes_at t) [0..<length melody]) \<and>
     timers (playMelody p h t s) =
       timers s @ [\<lparr>tid = nextTimer s, due = now s + 13200, interval = None,
                    cb = RearmMelody p h (t + sum_list (map snd melody))\<rparr>] \<and>
     (loveLetter s = Some l \<and> audioContextRef (music l) = Some h \<and>
      ctx_state (audio s ! h) = ctx_running \<longrightarrow>
        startMusic p s = playMelody p h (currentTime (audio s ! h) (now s)) s) \<and>
     (cb tm = RearmMelody True h t \<longrightarrow> run_callback tm s = playMelody True h t s)"
proof -
  have pass: "playMelody_pass 0 melody t =
      (concat (map (notes_at t) [0..<length melody]), t + sum_list (map snd melody))"
    by (rule playMelody_pass_melody)
  have "length (audio (playMelody p h t s)) = length (audio s)"
    and "oscillators (audio (playMelody p h t s) ! h) =
       oscillators (audio s ! h) @ concat (map (notes_at t) [0..<length melody])"
    and "timers (playMelody p h t s) =
       timers s @ [\<lparr>tid = nextTimer s, due = now s + 13200, interval = None,
                    cb = RearmMelody p h (t + sum_list (map snd melody))\<rparr>]"
    using assms
    by (simp_all add: playMelody_def pass Let_def setTimeout_at_def rearm_delay_value)
  moreover have "loveLetter s = Some l \<and> audioContextRef (music l) = Some h \<and>
      ctx_state (audio s ! h) = ctx_running \<longrightarrow>
        startMusic p s = playMelody p h (currentTime (audio s ! h) (now s)) s"
    using assms by (simp add: startMusic_def)
  moreover have "cb tm = RearmMelody True h t \<longrightarrow> run_callback tm s = playMelody True h t s"
    by (simp add: run_callback_def)
  ultimately show ?thesis
    by simp
qed

theorem playMelody_schedules_the_specified_melody_witness:
  "0 < length (audio letter_opened) \<and>
   ctx_state (audio letter_opened ! 0) = ctx_running \<and>
   oscillators (audio (startMusic True letter_opened) ! 0) =
     concat (map (notes_at 0) [0..<length melody]) \<and>
   length (oscillators (audio (startMusic True letter_opened) ! 0)) = 17 \<and>
   map due (timers (startMusic True letter_opened)) = [500, 1200, 13200] \<and>
   oscillators (audio (run_callback
       \<lparr>tid = 2, due = 13200, interval = None, cb = RearmMelody True 0 0\<rparr> letter_opened) ! 0) =
     concat (map (notes_at 0) [0..<length melody])"
proof -
  let ?l = "the (loveLetter letter_opened)"
  let ?tm = "\<lparr>tid = 2, due = 13200, interval = None, cb = RearmMelody True 0 0\<rparr>"
  have h: "0 < length (audio letter_opened)"
    by (simp add: letter_opened_state)
  have more: "loveLetter letter_opened = Some ?l" "audioContextRef (music ?l) = Some 0"
    "ctx_state (audio letter_opened ! 0) = ctx_running"
    "currentTime (audio letter_opened ! 0) (now letter_opened) = 0"
    "oscillators (audio letter_opened ! 0) = []"
    "now letter_opened = 0" "cb ?tm = RearmMelody True 0 0"
    by (simp_all add: letter_opened_state currentTime_def)
  have n: "length (concat (map (notes_at 0) [0..<length melody])) = 17"
    unfolding melody_indices by (simp add: notes_at_def Let_def)
  show ?thesis
    using h more n letter_opened_state(4)
      playMelody_schedules_the_specified_melody [OF h, of True 0 ?l ?tm]
    by simp
qed

end
